theory Spec2Isabelle
  imports Main "HOL-Library.AList"
begin

section \<open>Data model of powerengine\<close>

text \<open>
  The engine is a single Python module. Blocks are objects with a state dictionary,
  coordinates, a \<open>last_updated\<close> tick and a \<open>gid\<close> (a uuid4 string); the engine owns a
  dictionary from coordinates to blocks, a tick counter and a set of pending blocks.

  Values of a state dictionary are Python integers, strings and lists of strings: the
  types the block classes read (\<open>signal\<close>, \<open>delay\<close>, \<open>timer\<close> are integers, \<open>facing\<close> is
  a direction or a list of directions).
\<close>

type_synonym coords = "int \<times> int \<times> int"

datatype pyval = VInt int | VStr string | VList "string list"

datatype error = TypeError | KeyError | IndexError | FileNotFoundError
  | UnknownVersion | DanglingReference

text \<open>The concrete class of a block; each class is bound to one \<open>BlockType\<close> id.\<close>

datatype block_type = AIR | WIRE | POWER | DELAYER

record block =
  kind :: block_type
  state :: "string \<rightharpoonup> pyval"
  coords :: coords
  last_updated :: int
  gid :: nat

text \<open>
  \<open>Engine\<close>: the dictionary \<open>blocks\<close> keeps insertion order (the outer scan of
  \<open>tick_ahead\<close> follows it), so it is an association list read with \<open>map_of\<close> and
  written with \<open>AList.update\<close>. The members of \<open>update_buffer\<close> are block objects of the
  dictionary; an object is named by the key it is stored under.
\<close>

record engine =
  tick :: int
  blocks :: "(coords \<times> block) list"
  update_buffer :: "coords list"

text \<open>
  A \<open>world\<close> is an engine together with two pieces of state that are not attributes of
  the Python object: \<open>uuid_next\<close>, the state of the process-wide \<open>uuid.uuid4\<close> source
  (tokens are handed out in sequence, never twice), and \<open>update_log\<close>, a ghost list of the
  keys whose \<open>update\<close> method \<open>tick_ahead\<close> has invoked, most recent first.
\<close>

record world = engine +
  uuid_next :: nat
  update_log :: "coords list"

definition VERSION :: "int list" where
  "VERSION = [1, 0, 0]"

definition Engine_init :: engine where
  "Engine_init = \<lparr>tick = 1, blocks = [], update_buffer = []\<rparr>"

subsection \<open>Python values\<close>

text \<open>Truth value of a Python object: zero, the empty string and the empty list are false.\<close>

fun truthy :: "pyval \<Rightarrow> bool" where
  "truthy (VInt n) = (n \<noteq> 0)"
| "truthy (VStr s) = (s \<noteq> [])"
| "truthy (VList l) = (l \<noteq> [])"

text \<open>\<open>d.get(key)\<close> used as a condition: a missing key gives \<open>None\<close>, which is false.\<close>

definition get_truthy :: "(string \<rightharpoonup> pyval) \<Rightarrow> string \<Rightarrow> bool" where
  "get_truthy d key = (case d key of None \<Rightarrow> False | Some v \<Rightarrow> truthy v)"

text \<open>\<open>v[i]\<close>: a string gives its \<open>i\<close>-th character, a list its \<open>i\<close>-th element.\<close>

fun py_getitem :: "pyval \<Rightarrow> nat \<Rightarrow> error + pyval" where
  "py_getitem (VInt n) i = Inl TypeError"
| "py_getitem (VStr s) i = (if i < length s then Inr (VStr [s ! i]) else Inl IndexError)"
| "py_getitem (VList l) i = (if i < length l then Inr (VStr (l ! i)) else Inl IndexError)"

text \<open>\<open>v + n\<close> for an integer \<open>n\<close> (\<open>v - n\<close> is \<open>py_add_int v (- n)\<close>).\<close>

fun py_add_int :: "pyval \<Rightarrow> int \<Rightarrow> error + pyval" where
  "py_add_int (VInt a) n = Inr (VInt (a + n))"
| "py_add_int (VStr s) n = Inl TypeError"
| "py_add_int (VList l) n = Inl TypeError"

text \<open>\<open>v - 1\<close> where the code goes on with an integer.\<close>

fun py_pred :: "pyval \<Rightarrow> error + int" where
  "py_pred (VInt a) = Inr (a - 1)"
| "py_pred (VStr s) = Inl TypeError"
| "py_pred (VList l) = Inl TypeError"

text \<open>\<open>max(v, 0)\<close>: a string or a list cannot be compared with an integer.\<close>

fun py_max0 :: "pyval \<Rightarrow> error + int" where
  "py_max0 (VInt a) = Inr (max a 0)"
| "py_max0 (VStr s) = Inl TypeError"
| "py_max0 (VList l) = Inl TypeError"

text \<open>Comparison of two tuples of integers, \<open>a > b\<close>: lexicographic, a proper prefix is smaller.\<close>

fun tuple_gt :: "int list \<Rightarrow> int list \<Rightarrow> bool" where
  "tuple_gt [] ys = False"
| "tuple_gt (x # xs) [] = True"
| "tuple_gt (x # xs) (y # ys) = (if x = y then tuple_gt xs ys else x > y)"

subsection \<open>Block equality\<close>

text \<open>\<open>Block.__eq__\<close>: same concrete class and same \<open>gid\<close>.\<close>

definition block_eq :: "block \<Rightarrow> block \<Rightarrow> bool" where
  "block_eq a b = (kind a = kind b \<and> gid a = gid b)"

subsection \<open>Engine operations\<close>

text \<open>
  \<open>Air(engine, {}, coords)\<close>: \<open>Block.__init__\<close> stores the state and the coordinates, sets
  \<open>last_updated\<close> to \<open>engine.tick - 1\<close>, draws a uuid and calls \<open>update\<close>, which for Air is
  \<open>pass\<close>.
\<close>

definition update_Air :: "world \<Rightarrow> block \<Rightarrow> error + (block \<times> world)" where
  "update_Air w self = Inr (self, w)"

definition Air_init :: "world \<Rightarrow> coords \<Rightarrow> block \<times> world" where
  "Air_init w c =
     (\<lparr>kind = AIR, state = Map.empty, coords = c, last_updated = tick w - 1, gid = uuid_next w\<rparr>,
      w\<lparr>uuid_next := Suc (uuid_next w)\<rparr>)"

text \<open>
  \<open>get_block\<close>: \<open>self.blocks.get(coords, Air(self, {}, coords))\<close>. The default is an
  argument, so the Air block is constructed (and a uuid drawn) on every call, also when
  the coordinate is occupied.
\<close>

definition get_block :: "world \<Rightarrow> coords \<Rightarrow> block \<times> world" where
  "get_block w c =
     (let (air, w') = Air_init w c
      in (case map_of (blocks w') c of None \<Rightarrow> air | Some b \<Rightarrow> b, w'))"

text \<open>\<open>add_blocks\<close>: \<open>self.blocks.update({i.coords: i for i in blocks})\<close>.\<close>

fun add_blocks :: "world \<Rightarrow> block list \<Rightarrow> world" where
  "add_blocks w [] = w"
| "add_blocks w (b # bs) = add_blocks (w\<lparr>blocks := AList.update (coords b) b (blocks w)\<rparr>) bs"

text \<open>\<open>schedule_update\<close>: \<open>self.update_buffer.add(block)\<close>, for the block stored at a key.\<close>

definition schedule_update :: "world \<Rightarrow> coords \<Rightarrow> world" where
  "schedule_update w k =
     (if k \<in> set (update_buffer w) then w else w\<lparr>update_buffer := update_buffer w @ [k]\<rparr>)"

subsection \<open>Persistence\<close>

text \<open>
  \<open>save\<close> pickles the tuple \<open>(Engine.VERSION, self.blocks, self.tick)\<close> into a file; a
  file system maps a path to the tuple pickled there. \<open>load\<close> reads the tuple, raises
  when its version is greater than \<open>Engine.VERSION\<close>, builds an engine from the rest and
  ends without a \<open>return\<close> statement: its caller receives \<open>None\<close>. Plugin discovery is
  left out (\<open>load_plugins=False\<close>, or an empty plugins directory).
\<close>

type_synonym payload = "int list \<times> (coords \<times> block) list \<times> int"

definition save :: "(string \<rightharpoonup> payload) \<Rightarrow> world \<Rightarrow> string \<Rightarrow> (string \<rightharpoonup> payload)" where
  "save fs self file = fs(file \<mapsto> (VERSION, blocks self, tick self))"

definition load :: "(string \<rightharpoonup> payload) \<Rightarrow> string \<Rightarrow> error + engine option" where
  "load fs file =
     (case fs file of
        None \<Rightarrow> Inl FileNotFoundError
      | Some data \<Rightarrow>
          (let version = fst data
           in if tuple_gt version VERSION then Inl UnknownVersion
              else (let engine = Engine_init;
                        engine = engine\<lparr>blocks := fst (snd data), tick := snd (snd data)\<rparr>
                    in Inr None)))"

section \<open>Topology utility\<close>

definition all_directions :: "string list" where
  "all_directions = [''north'', ''south'', ''east'', ''west'']"

text \<open>\<open>d[key]\<close> on a dictionary literal: a missing key raises \<open>KeyError\<close>.\<close>

definition dict_index :: "(string \<times> 'a) list \<Rightarrow> string \<Rightarrow> error + 'a" where
  "dict_index d key = (case map_of d key of None \<Rightarrow> Inl KeyError | Some v \<Rightarrow> Inr v)"

text \<open>The dictionary literal that both private helpers of \<open>Utils\<close> build and index.\<close>

definition offset_dict :: "coords \<Rightarrow> (string \<times> coords) list" where
  "offset_dict c =
     (case c of (x, y, z) \<Rightarrow>
        [(''north'', (x + 1, y, z)), (''south'', (x - 1, y, z)),
         (''west'', (x, y, z + 1)), (''east'', (x, y, z - 1))])"

text \<open>\<open>Utils.__get_surrounding_block\<close>: a tuple of one coordinate.\<close>

fun get_surrounding_block_priv :: "coords \<Rightarrow> pyval \<Rightarrow> error + coords list" where
  "get_surrounding_block_priv c (VStr s) =
     (case dict_index (offset_dict c) s of Inl e \<Rightarrow> Inl e | Inr p \<Rightarrow> Inr [p])"
| "get_surrounding_block_priv c (VInt n) = Inl KeyError"
| "get_surrounding_block_priv c (VList l) = Inl TypeError"

text \<open>
  \<open>Utils.__get_surrounding_blocks\<close>, a generator, consumed at once by \<open>tuple(...)\<close>:
  \<open>yield_all\<close> is the loop body over the directions, the wrapper applies
  \<open>directions or [...]\<close>.
\<close>

fun yield_all :: "coords \<Rightarrow> string list \<Rightarrow> error + coords list" where
  "yield_all c [] = Inr []"
| "yield_all c (i # ds) =
     (case dict_index (offset_dict c) i of
        Inl e \<Rightarrow> Inl e
      | Inr p \<Rightarrow> (case yield_all c ds of Inl e \<Rightarrow> Inl e | Inr ps \<Rightarrow> Inr (p # ps)))"

definition get_surrounding_blocks_priv :: "coords \<Rightarrow> string list \<Rightarrow> error + coords list" where
  "get_surrounding_blocks_priv c directions =
     yield_all c (if directions = [] then all_directions else directions)"

text \<open>\<open>direction or ['north', 'south', 'east', 'west']\<close>; \<open>None\<close> is the absent argument.\<close>

definition or_all :: "pyval option \<Rightarrow> pyval" where
  "or_all direction =
     (case direction of
        None \<Rightarrow> VList all_directions
      | Some v \<Rightarrow> if truthy v then v else VList all_directions)"

text \<open>\<open>Utils.get_surrounding_block\<close> on a coordinate triple.\<close>

definition get_surrounding_block :: "coords \<Rightarrow> pyval option \<Rightarrow> error + coords list" where
  "get_surrounding_block c direction =
     (case or_all direction of
        VList ds \<Rightarrow> get_surrounding_blocks_priv c ds
      | VStr s \<Rightarrow> get_surrounding_block_priv c (VStr s)
      | VInt n \<Rightarrow> get_surrounding_block_priv c (VInt n))"

text \<open>
  \<open>Delayer.update\<close> calls \<open>Utils.get_surrounding_block\<close> with one argument, a neighbour's
  \<open>facing\<close> value: that value is bound to the parameter \<open>coords\<close> and \<open>direction\<close> is
  \<open>None\<close>, so the generator runs over all four directions and builds its dictionary
  literal from \<open>coords[0] + 1\<close>, \<open>coords[1]\<close>, \<open>coords[2]\<close>, ... of that value.
\<close>

definition offset_dict_of_value ::
    "pyval \<Rightarrow> error + (string \<times> (pyval \<times> pyval \<times> pyval)) list" where
  "offset_dict_of_value v =
     (case py_getitem v 0 of Inl e \<Rightarrow> Inl e | Inr c0 \<Rightarrow>
      (case py_add_int c0 1 of Inl e \<Rightarrow> Inl e | Inr n0 \<Rightarrow>
      (case py_getitem v 1 of Inl e \<Rightarrow> Inl e | Inr c1 \<Rightarrow>
      (case py_getitem v 2 of Inl e \<Rightarrow> Inl e | Inr c2 \<Rightarrow>
      (case py_add_int c0 (- 1) of Inl e \<Rightarrow> Inl e | Inr s0 \<Rightarrow>
      (case py_add_int c2 1 of Inl e \<Rightarrow> Inl e | Inr w2 \<Rightarrow>
      (case py_add_int c2 (- 1) of Inl e \<Rightarrow> Inl e | Inr e2 \<Rightarrow>
         Inr [(''north'', (n0, c1, c2)), (''south'', (s0, c1, c2)),
              (''west'', (c0, c1, w2)), (''east'', (c0, c1, e2))])))))))"

fun yield_all_of_value :: "pyval \<Rightarrow> string list \<Rightarrow> error + (pyval \<times> pyval \<times> pyval) list" where
  "yield_all_of_value v [] = Inr []"
| "yield_all_of_value v (i # ds) =
     (case offset_dict_of_value v of
        Inl e \<Rightarrow> Inl e
      | Inr d \<Rightarrow>
          (case dict_index d i of
             Inl e \<Rightarrow> Inl e
           | Inr p \<Rightarrow> (case yield_all_of_value v ds of Inl e \<Rightarrow> Inl e | Inr ps \<Rightarrow> Inr (p # ps))))"

definition get_surrounding_block_of_value ::
    "pyval \<Rightarrow> error + (pyval \<times> pyval \<times> pyval) list" where
  "get_surrounding_block_of_value v = yield_all_of_value v all_directions"

text \<open>\<open>self.coords in t\<close> for a tuple \<open>t\<close> of such triples.\<close>

definition coords_in :: "coords \<Rightarrow> (pyval \<times> pyval \<times> pyval) list \<Rightarrow> bool" where
  "coords_in c ps = ((case c of (x, y, z) \<Rightarrow> (VInt x, VInt y, VInt z)) \<in> set ps)"

section \<open>Block classes\<close>

subsection \<open>Wire\<close>

definition opposite_dict :: "(string \<times> string) list" where
  "opposite_dict =
     [(''north'', ''south''), (''south'', ''north''), (''east'', ''west''), (''west'', ''east'')]"

text \<open>
  The condition of the \<open>continue\<close> in \<open>Wire.update\<close>: the neighbour has a true \<open>facing\<close>
  and either it is a string and the wire is not on the side opposite to it, or it is a
  list and the wire is on none of the listed sides.
\<close>

definition wire_skips :: "block \<Rightarrow> block \<Rightarrow> error + bool" where
  "wire_skips self blk =
     (case state blk ''facing'' of
        None \<Rightarrow> Inr False
      | Some f \<Rightarrow>
          if \<not> truthy f then Inr False
          else (case f of
                  VStr s \<Rightarrow>
                    (case dict_index opposite_dict s of
                       Inl e \<Rightarrow> Inl e
                     | Inr opp \<Rightarrow>
                         (case get_surrounding_block (coords blk) (Some (VList [opp])) of
                            Inl e \<Rightarrow> Inl e
                          | Inr cs \<Rightarrow> Inr (coords self \<notin> set cs)))
                | VList ds \<Rightarrow>
                    (case get_surrounding_block (coords blk) (Some (VList ds)) of
                       Inl e \<Rightarrow> Inl e
                     | Inr cs \<Rightarrow> Inr (coords self \<notin> set cs))
                | VInt n \<Rightarrow> Inr False))"

text \<open>\<open>max(block.state.get('signal', 0) - 1, self.state['signal'])\<close>.\<close>

definition wire_max :: "block \<Rightarrow> block \<Rightarrow> error + int" where
  "wire_max self blk =
     (case py_pred (case state blk ''signal'' of None \<Rightarrow> VInt 0 | Some v \<Rightarrow> v) of
        Inl e \<Rightarrow> Inl e
      | Inr a \<Rightarrow>
          (case state self ''signal'' of
             None \<Rightarrow> Inl KeyError
           | Some (VInt b) \<Rightarrow> Inr (max a b)
           | Some (VStr s) \<Rightarrow> Inl TypeError
           | Some (VList l) \<Rightarrow> Inl TypeError))"

text \<open>The \<open>for\<close> loop of \<open>Wire.update\<close> over the neighbouring coordinates.\<close>

fun wire_loop :: "world \<Rightarrow> block \<Rightarrow> coords list \<Rightarrow> error + (block \<times> world)" where
  "wire_loop w self [] = Inr (self, w)"
| "wire_loop w self (i # cs) =
     (let (blk, w1) = get_block w i;
          w2 = (if last_updated blk \<le> last_updated self \<and> kind blk \<noteq> AIR
                then schedule_update w1 i else w1)
      in case wire_skips self blk of
           Inl e \<Rightarrow> Inl e
         | Inr True \<Rightarrow> wire_loop w2 self cs
         | Inr False \<Rightarrow>
             (case wire_max self blk of
                Inl e \<Rightarrow> Inl e
              | Inr m \<Rightarrow> wire_loop w2 (self\<lparr>state := (state self)(''signal'' \<mapsto> VInt m)\<rparr>) cs))"

definition update_Wire :: "world \<Rightarrow> block \<Rightarrow> error + (block \<times> world)" where
  "update_Wire w self =
     (let self1 = self\<lparr>state := (state self)(''signal'' \<mapsto> VInt 0)\<rparr>
      in case state self1 ''facing'' of
           None \<Rightarrow> Inl KeyError
         | Some f \<Rightarrow>
             (case get_surrounding_block (coords self1) (Some f) of
                Inl e \<Rightarrow> Inl e
              | Inr cs \<Rightarrow>
                  (case wire_loop w self1 cs of
                     Inl e \<Rightarrow> Inl e
                   | Inr (self2, w2) \<Rightarrow> Inr (self2\<lparr>last_updated := tick w2\<rparr>, w2))))"

subsection \<open>Power\<close>

fun power_loop :: "world \<Rightarrow> coords list \<Rightarrow> world" where
  "power_loop w [] = w"
| "power_loop w (i # cs) =
     (let (blk, w1) = get_block w i
      in power_loop (if last_updated blk \<noteq> tick w1 \<and> kind blk \<noteq> AIR
                     then schedule_update w1 i else w1) cs)"

definition update_Power :: "world \<Rightarrow> block \<Rightarrow> error + (block \<times> world)" where
  "update_Power w self =
     (case get_surrounding_block (coords self) None of
        Inl e \<Rightarrow> Inl e
      | Inr cs \<Rightarrow> (let w' = power_loop w cs in Inr (self\<lparr>last_updated := tick w'\<rparr>, w')))"

subsection \<open>Delayer\<close>

text \<open>\<open>t[0]\<close> on a tuple of coordinates.\<close>

definition first_of :: "coords list \<Rightarrow> error + coords" where
  "first_of cs = (case cs of [] \<Rightarrow> Inl IndexError | c # _ \<Rightarrow> Inr c)"

text \<open>The dictionary of opposites indexed by the delayer's own \<open>facing\<close>: a list is unhashable.\<close>

fun opposite_of :: "pyval \<Rightarrow> error + string" where
  "opposite_of (VStr s) = dict_index opposite_dict s"
| "opposite_of (VInt n) = Inl KeyError"
| "opposite_of (VList l) = Inl TypeError"

text \<open>
  One operand of the \<open>or\<close> in the guard of the early \<open>return\<close>:
  \<open>b.state.get('facing') and self.coords not in Utils.get_surrounding_block(b.state['facing'])\<close>.
\<close>

definition disallows :: "block \<Rightarrow> block \<Rightarrow> error + bool" where
  "disallows self b =
     (if get_truthy (state b) ''facing'' then
        (case state b ''facing'' of
           None \<Rightarrow> Inl KeyError
         | Some f \<Rightarrow>
             (case get_surrounding_block_of_value f of
                Inl e \<Rightarrow> Inl e
              | Inr ps \<Rightarrow> Inr (\<not> coords_in (coords self) ps)))
      else Inr False)"

definition delayer_blocked :: "block \<Rightarrow> block \<Rightarrow> block \<Rightarrow> error + bool" where
  "delayer_blocked self input_block output_block =
     (case disallows self input_block of
        Inl e \<Rightarrow> Inl e
      | Inr True \<Rightarrow> Inr True
      | Inr False \<Rightarrow> disallows self output_block)"

text \<open>The countdown: the two branches on the input's signal, on the delayer's own state.\<close>

definition delayer_count :: "(string \<rightharpoonup> pyval) \<Rightarrow> error + (string \<rightharpoonup> pyval)" where
  "delayer_count st =
     (case (if get_truthy st ''timer''
            then (case st ''timer'' of
                    None \<Rightarrow> Inl KeyError
                  | Some t \<Rightarrow> (case py_pred t of Inl e \<Rightarrow> Inl e | Inr n \<Rightarrow> Inr (VInt n)))
            else (case st ''delay'' of None \<Rightarrow> Inl KeyError | Some v \<Rightarrow> Inr v)) of
        Inl e \<Rightarrow> Inl e
      | Inr x \<Rightarrow>
          (case py_max0 x of
             Inl e \<Rightarrow> Inl e
           | Inr t \<Rightarrow>
               (let st1 = st(''timer'' \<mapsto> VInt t)
                in Inr (if t = 0 then st1(''signal'' \<mapsto> VInt 16) else st1))))"

definition delayer_clear :: "(string \<rightharpoonup> pyval) \<Rightarrow> (string \<rightharpoonup> pyval)" where
  "delayer_clear st = (st(''timer'' := None))(''signal'' \<mapsto> VInt 0)"

text \<open>
  \<open>input_coords\<close> and \<open>output_coords\<close> of \<open>Delayer.update\<close>: the first coordinate on the
  side \<open>facing\<close>, and the first one on the opposite side.
\<close>

definition delayer_input_coords :: "block \<Rightarrow> error + coords" where
  "delayer_input_coords self =
     (case state self ''facing'' of
        None \<Rightarrow> Inl KeyError
      | Some f \<Rightarrow>
          (case get_surrounding_block (coords self) (Some f) of
             Inl e \<Rightarrow> Inl e
           | Inr cs \<Rightarrow> first_of cs))"

definition delayer_output_coords :: "block \<Rightarrow> error + coords" where
  "delayer_output_coords self =
     (case state self ''facing'' of
        None \<Rightarrow> Inl KeyError
      | Some f \<Rightarrow>
          (case opposite_of f of
             Inl e \<Rightarrow> Inl e
           | Inr opp \<Rightarrow>
               (case get_surrounding_block (coords self) (Some (VStr opp)) of
                  Inl e \<Rightarrow> Inl e
                | Inr cs \<Rightarrow> first_of cs)))"

definition update_Delayer :: "world \<Rightarrow> block \<Rightarrow> error + (block \<times> world)" where
  "update_Delayer w self =
     (case delayer_input_coords self of Inl e \<Rightarrow> Inl e | Inr input_coords \<Rightarrow>
     (case delayer_output_coords self of Inl e \<Rightarrow> Inl e | Inr output_coords \<Rightarrow>
       (let (input_block, w1) = get_block w input_coords;
            (output_block, w2) = get_block w1 output_coords
        in case delayer_blocked self input_block output_block of
             Inl e \<Rightarrow> Inl e
           | Inr True \<Rightarrow> Inr (self, w2)
           | Inr False \<Rightarrow>
               (case (if get_truthy (state input_block) ''signal''
                      then delayer_count (state self)
                      else Inr (delayer_clear (state self))) of
                  Inl e \<Rightarrow> Inl e
                | Inr st \<Rightarrow>
                    (let w3 = (if last_updated input_block \<noteq> tick w2 \<and> kind input_block \<noteq> AIR
                               then schedule_update w2 input_coords else w2);
                         w4 = (if last_updated output_block \<noteq> tick w3 \<and> kind output_block \<noteq> AIR
                               then schedule_update w3 output_coords else w3)
                     in Inr (self\<lparr>state := st, last_updated := tick w4\<rparr>, w4))))))"

subsection \<open>Dispatch and construction\<close>

text \<open>The method \<open>update\<close> of the block's class.\<close>

definition update :: "world \<Rightarrow> block \<Rightarrow> error + (block \<times> world)" where
  "update w self =
     (case kind self of
        AIR \<Rightarrow> update_Air w self
      | WIRE \<Rightarrow> update_Wire w self
      | POWER \<Rightarrow> update_Power w self
      | DELAYER \<Rightarrow> update_Delayer w self)"

text \<open>\<open>Block.__init__\<close>, for the class \<open>k\<close>; \<open>Power.__init__\<close> then stores the signal 16.\<close>

definition Block_init ::
    "block_type \<Rightarrow> world \<Rightarrow> (string \<rightharpoonup> pyval) \<Rightarrow> coords \<Rightarrow> error + (block \<times> world)" where
  "Block_init k w st c =
     update (w\<lparr>uuid_next := Suc (uuid_next w)\<rparr>)
       \<lparr>kind = k, state = st, coords = c, last_updated = tick w - 1, gid = uuid_next w\<rparr>"

definition Power_init :: "world \<Rightarrow> (string \<rightharpoonup> pyval) \<Rightarrow> coords \<Rightarrow> error + (block \<times> world)" where
  "Power_init w st c =
     (case Block_init POWER w st c of
        Inl e \<Rightarrow> Inl e
      | Inr (self, w') \<Rightarrow> Inr (self\<lparr>state := (state self)(''signal'' \<mapsto> VInt 16)\<rparr>, w'))"

section \<open>The tick engine\<close>

text \<open>
  \<open>set.pop()\<close> removes an arbitrary member: \<open>pick\<close> chooses its index from the whole
  current state, and every result below holds for every \<open>pick\<close>.
\<close>

definition pop_key :: "(world \<Rightarrow> nat) \<Rightarrow> world \<Rightarrow> coords" where
  "pop_key pick w = update_buffer w ! (pick w mod length (update_buffer w))"

text \<open>
  The inner loop \<open>while self.update_buffer: self.update_buffer.pop().update(self)\<close>. It
  may run forever: \<open>None\<close> is the result when the fuel (the number of loop tests) runs
  out. An exception of \<open>update\<close> leaves the loop and \<open>tick_ahead\<close>. A popped key is
  always a key of the dictionary inside \<open>tick_ahead\<close>; \<open>DanglingReference\<close> marks the
  other case, which the Python objects do not have.
\<close>

fun cascade :: "nat \<Rightarrow> (world \<Rightarrow> nat) \<Rightarrow> world \<Rightarrow> (error + world) option" where
  "cascade 0 pick w = None"
| "cascade (Suc n) pick w =
     (if update_buffer w = [] then Some (Inr w)
      else (let k = pop_key pick w;
                w1 = w\<lparr>update_buffer := removeAll k (update_buffer w)\<rparr>
            in case map_of (blocks w1) k of
                 None \<Rightarrow> Some (Inl DanglingReference)
               | Some b \<Rightarrow>
                   (case update (w1\<lparr>update_log := k # update_log w1\<rparr>) b of
                      Inl e \<Rightarrow> Some (Inl e)
                    | Inr (b', w2) \<Rightarrow>
                        cascade n pick (w2\<lparr>blocks := AList.update k b' (blocks w2)\<rparr>))))"

text \<open>
  The outer loop. \<open>lst\<close> is one iterator over \<open>self.blocks.values()\<close>, wrapped in one
  more \<open>filter\<close> per round: each \<open>next(lst)\<close> goes on from where the last one stopped, so
  the scan passes over the keys once, testing \<open>last_updated\<close> of the block when it
  reaches it.
\<close>

fun scan :: "nat \<Rightarrow> (world \<Rightarrow> nat) \<Rightarrow> coords list \<Rightarrow> world \<Rightarrow> (error + world) option" where
  "scan fuel pick [] w = Some (Inr w)"
| "scan fuel pick (k # ks) w =
     (case map_of (blocks w) k of
        None \<Rightarrow> scan fuel pick ks w
      | Some b \<Rightarrow>
          if last_updated b \<noteq> tick w then
            (case cascade fuel pick (w\<lparr>update_buffer := [k]\<rparr>) of
               None \<Rightarrow> None
             | Some (Inl e) \<Rightarrow> Some (Inl e)
             | Some (Inr w') \<Rightarrow> scan fuel pick ks w')
          else scan fuel pick ks w)"

definition tick_ahead :: "nat \<Rightarrow> (world \<Rightarrow> nat) \<Rightarrow> world \<Rightarrow> (error + world) option" where
  "tick_ahead fuel pick w =
     (case scan fuel pick (map fst (blocks w)) w of
        None \<Rightarrow> None
      | Some (Inl e) \<Rightarrow> Some (Inl e)
      | Some (Inr w') \<Rightarrow> Some (Inr (w'\<lparr>tick := tick w' + 1\<rparr>)))"

section \<open>Example blocks and worlds\<close>

definition air_at :: "coords \<Rightarrow> int \<Rightarrow> nat \<Rightarrow> block" where
  "air_at c t g = \<lparr>kind = AIR, state = Map.empty, coords = c, last_updated = t, gid = g\<rparr>"

definition power_at :: "coords \<Rightarrow> int \<Rightarrow> nat \<Rightarrow> block" where
  "power_at c t g =
     \<lparr>kind = POWER, state = [''signal'' \<mapsto> VInt 16], coords = c, last_updated = t, gid = g\<rparr>"

definition world_of :: "int \<Rightarrow> (coords \<times> block) list \<Rightarrow> nat \<Rightarrow> world" where
  "world_of t bs u =
     \<lparr>tick = t, blocks = bs, update_buffer = [], uuid_next = u, update_log = []\<rparr>"

definition wire_at :: "coords \<Rightarrow> pyval \<Rightarrow> int \<Rightarrow> int \<Rightarrow> nat \<Rightarrow> block" where
  "wire_at c f sig t g =
     \<lparr>kind = WIRE, state = [''facing'' \<mapsto> f, ''signal'' \<mapsto> VInt sig], coords = c,
      last_updated = t, gid = g\<rparr>"

definition delayer_at :: "coords \<Rightarrow> string \<Rightarrow> int \<Rightarrow> int \<Rightarrow> nat \<Rightarrow> block" where
  "delayer_at c f d t g =
     \<lparr>kind = DELAYER, state = [''facing'' \<mapsto> VStr f, ''delay'' \<mapsto> VInt d], coords = c,
      last_updated = t, gid = g\<rparr>"

definition fed_world :: world where
  "fed_world = world_of 1 [((1, 0, 0), power_at (1, 0, 0) 0 1)] 2"

definition empty_world :: world where
  "empty_world = world_of 1 [] 0"

text \<open>
  A wire at (1, 0, 0) carrying the signal 9, next to the origin: in \<open>away_world\<close> its
  facing points away from the origin, in \<open>toward_world\<close> it points at the origin.
\<close>

definition away_world :: world where
  "away_world = world_of 1 [((1, 0, 0), wire_at (1, 0, 0) (VStr ''north'') 9 0 1)] 2"

definition toward_world :: world where
  "toward_world = world_of 1 [((1, 0, 0), wire_at (1, 0, 0) (VStr ''south'') 9 0 1)] 2"

text \<open>A world whose only stored block is an Air block, and the same world one tick later.\<close>

definition air_world :: world where
  "air_world = world_of 1 [((0, 0, 0), air_at (0, 0, 0) 0 0)] 1"

definition air_world_after :: world where
  "air_world_after =
     \<lparr>tick = 2, blocks = [((0, 0, 0), air_at (0, 0, 0) 0 0)], update_buffer = [],
      uuid_next = 1, update_log = [(0, 0, 0)]\<rparr>"

text \<open>
  A power source at the origin, a wire north of it that reads it and a delayer south of
  it that reads it, all dated 1 in an engine at tick 2.
\<close>

definition circuit_world :: world where
  "circuit_world =
     world_of 2 [((0, 0, 0), power_at (0, 0, 0) 1 0),
                 ((1, 0, 0), wire_at (1, 0, 0) (VStr ''south'') 0 1 1),
                 ((- 1, 0, 0), delayer_at (- 1, 0, 0) ''north'' 1 1 2)] 3"

text \<open>
  The same power source with a wire dated 10, after the current tick (a block built
  against an engine that had run further).
\<close>

definition late_world :: world where
  "late_world =
     world_of 2 [((0, 0, 0), power_at (0, 0, 0) 1 0),
                 ((1, 0, 0), wire_at (1, 0, 0) (VStr ''south'') 0 10 1)] 2"

text \<open>
  The input position (1, 0, 0) of a delayer at the origin that faces north, held by a
  wire with a \<open>facing\<close> of its own: with the signal 5 and with the signal 0. And such a
  delayer in the middle of its countdown.
\<close>

definition wire_fed_world :: world where
  "wire_fed_world = world_of 1 [((1, 0, 0), wire_at (1, 0, 0) (VStr ''north'') 5 0 1)] 2"

definition wire_idle_world :: world where
  "wire_idle_world = world_of 1 [((1, 0, 0), wire_at (1, 0, 0) (VStr ''north'') 0 0 1)] 2"

definition counting_delayer :: block where
  "counting_delayer =
     \<lparr>kind = DELAYER,
      state = [''facing'' \<mapsto> VStr ''north'', ''delay'' \<mapsto> VInt 1, ''timer'' \<mapsto> VInt 1],
      coords = (0, 0, 0), last_updated = 0, gid = 0\<rparr>"

text \<open>
  Two wires that read each other, both with \<open>last_updated = 10\<close> in an engine at tick 1
  (blocks built against an engine that had run further), and the shape of the worlds
  the cascade passes through from there.
\<close>

definition future_world :: world where
  "future_world =
     world_of 1 [((0, 0, 0), wire_at (0, 0, 0) (VStr ''north'') 0 10 0),
                 ((1, 0, 0), wire_at (1, 0, 0) (VStr ''south'') 0 10 1)] 2"

definition spin_world ::
    "(string \<rightharpoonup> pyval) \<Rightarrow> int \<Rightarrow> (string \<rightharpoonup> pyval) \<Rightarrow> int \<Rightarrow> coords \<Rightarrow> nat \<Rightarrow> coords list \<Rightarrow> world" where
  "spin_world sa la sb lb k u lg =
     \<lparr>tick = 1,
      blocks = [((0, 0, 0), \<lparr>kind = WIRE, state = sa, coords = (0, 0, 0), last_updated = la, gid = 0\<rparr>),
                ((1, 0, 0), \<lparr>kind = WIRE, state = sb, coords = (1, 0, 0), last_updated = lb, gid = 1\<rparr>)],
      update_buffer = [k], uuid_next = u, update_log = lg\<rparr>"

text \<open>A \<open>set.pop\<close> that always takes the first member.\<close>

definition pick_first :: "world \<Rightarrow> nat" where
  "pick_first w = 0"

section \<open>Notions used to state the properties\<close>

text \<open>The four positions one step north, south, east and west of a coordinate.\<close>

definition cardinal_neighbours :: "coords \<Rightarrow> coords list" where
  "cardinal_neighbours c =
     (case c of (x, y, z) \<Rightarrow> [(x + 1, y, z), (x - 1, y, z), (x, y, z - 1), (x, y, z + 1)])"

text \<open>
  A block is due at a coordinate when one is stored there, it is not Air and its
  \<open>last_updated\<close> differs from the current tick.
\<close>

definition due :: "world \<Rightarrow> coords \<Rightarrow> bool" where
  "due w i =
     (case map_of (blocks w) i of
        None \<Rightarrow> False
      | Some b \<Rightarrow> kind b \<noteq> AIR \<and> last_updated b \<noteq> tick w)"

text \<open>The block an update sees at a coordinate: the stored one, or Air.\<close>

definition block_at :: "world \<Rightarrow> coords \<Rightarrow> block" where
  "block_at w c = fst (get_block w c)"

text \<open>The integer a wire reads as a neighbour's signal: 0 when the key is missing.\<close>

definition signal_or_0 :: "block \<Rightarrow> int" where
  "signal_or_0 b = (case state b ''signal'' of Some (VInt n) \<Rightarrow> n | _ \<Rightarrow> 0)"

text \<open>
  One step from a coordinate to the named side: north and south move along the first
  axis, west and east along the third. Any other name leaves the coordinate where it is.
\<close>

definition side :: "coords \<Rightarrow> string \<Rightarrow> coords" where
  "side c d =
     (case c of (x, y, z) \<Rightarrow>
        if d = ''north'' then (x + 1, y, z)
        else if d = ''south'' then (x - 1, y, z)
        else if d = ''west'' then (x, y, z + 1)
        else if d = ''east'' then (x, y, z - 1)
        else c)"

definition opposite :: "string \<Rightarrow> string" where
  "opposite d =
     (if d = ''north'' then ''south''
      else if d = ''south'' then ''north''
      else if d = ''east'' then ''west''
      else if d = ''west'' then ''east''
      else d)"

text \<open>
  The positions a wire at \<open>c\<close> with the facing \<open>f\<close> reads: the side of a direction
  string, the sides of a list of directions, and all four sides when the facing is
  false (the empty string, the empty list, zero).
\<close>

definition facing_sides :: "coords \<Rightarrow> pyval \<Rightarrow> coords list" where
  "facing_sides c f =
     (if \<not> truthy f then cardinal_neighbours c
      else (case f of
              VStr d \<Rightarrow> [side c d]
            | VList ds \<Rightarrow> map (side c) ds
            | VInt n \<Rightarrow> []))"

text \<open>
  The wording of the specification. The positions a block's \<open>facing\<close> points at are
  the sides it names; a block has a facing restriction pointing away from the position
  \<open>c\<close> when it has a true \<open>facing\<close> and \<open>c\<close> is none of the positions it points at; the
  signal of a wire is the maximum of 0 and of \<open>signal - 1\<close> over the neighbours it reads
  that have no such restriction.
\<close>

definition facing_targets :: "block \<Rightarrow> coords list" where
  "facing_targets b =
     (case state b ''facing'' of
        None \<Rightarrow> []
      | Some (VStr d) \<Rightarrow> [side (coords b) d]
      | Some (VList ds) \<Rightarrow> map (side (coords b)) ds
      | Some (VInt n) \<Rightarrow> [])"

definition points_away :: "block \<Rightarrow> coords \<Rightarrow> bool" where
  "points_away b c = (get_truthy (state b) ''facing'' \<and> c \<notin> set (facing_targets b))"

definition wire_signal_claimed :: "world \<Rightarrow> block \<Rightarrow> pyval \<Rightarrow> int" where
  "wire_signal_claimed w self f =
     Max (set (0 # map (\<lambda>i. signal_or_0 (block_at w i) - 1)
                     (filter (\<lambda>i. \<not> points_away (block_at w i) (coords self))
                        (facing_sides (coords self) f))))"

text \<open>
  What holds instead. A neighbour forwards to the position \<open>c\<close> when it has no true
  \<open>facing\<close>; or its \<open>facing\<close> is a direction string and \<open>c\<close> is on the side
  \<^emph>\<open>opposite\<close> to it (the string names the side the block reads, it puts out on the
  other one); or its \<open>facing\<close> is a list of directions and \<open>c\<close> is on one of the listed
  sides. The signal of a wire is the maximum of 0 and of \<open>signal - 1\<close> over the
  neighbours it reads that forward to it.
\<close>

definition forwards_to :: "block \<Rightarrow> coords \<Rightarrow> bool" where
  "forwards_to b c =
     (case state b ''facing'' of
        None \<Rightarrow> True
      | Some f \<Rightarrow>
          if \<not> truthy f then True
          else (case f of
                  VStr d \<Rightarrow> c = side (coords b) (opposite d)
                | VList ds \<Rightarrow> c \<in> set (map (side (coords b)) ds)
                | VInt n \<Rightarrow> True))"

definition wire_signal_forwarded :: "world \<Rightarrow> block \<Rightarrow> pyval \<Rightarrow> int" where
  "wire_signal_forwarded w self f =
     Max (set (0 # map (\<lambda>i. signal_or_0 (block_at w i) - 1)
                     (filter (\<lambda>i. forwards_to (block_at w i) (coords self))
                        (facing_sides (coords self) f))))"

text \<open>
  Successive updates of one delayer, one per world in the list (the world as it is when
  the delayer's turn comes in each tick).
\<close>

fun delayer_updates :: "world list \<Rightarrow> block \<Rightarrow> error + block" where
  "delayer_updates [] self = Inr self"
| "delayer_updates (w # ws) self =
     (case update_Delayer w self of
        Inl e \<Rightarrow> Inl e
      | Inr (self', w') \<Rightarrow> delayer_updates ws self')"

text \<open>
  In the world \<open>w\<close> the delayer's input neighbour carries a true signal (\<open>input_high\<close>),
  and neither of its two neighbours carries a true \<open>facing\<close> (\<open>neighbours_plain\<close>).
\<close>

definition input_high :: "world \<Rightarrow> block \<Rightarrow> bool" where
  "input_high w self =
     (case delayer_input_coords self of
        Inl e \<Rightarrow> False
      | Inr ic \<Rightarrow> get_truthy (state (block_at w ic)) ''signal'')"

definition neighbours_plain :: "world \<Rightarrow> block \<Rightarrow> bool" where
  "neighbours_plain w self =
     (case delayer_input_coords self of
        Inl e \<Rightarrow> False
      | Inr ic \<Rightarrow>
          (case delayer_output_coords self of
             Inl e \<Rightarrow> False
           | Inr oc \<Rightarrow> \<not> get_truthy (state (block_at w ic)) ''facing''
                        \<and> \<not> get_truthy (state (block_at w oc)) ''facing''))"

text \<open>
  The block map as \<open>add_blocks\<close> builds it: the keys are distinct and every block is
  stored under its own coordinates. No stored block is dated after the current tick; no
  stored block is Air; every stored block was last updated at tick \<open>t\<close>. No stored
  delayer has an input or output neighbour with a true \<open>facing\<close>: then the guard of the
  early \<open>return\<close> of \<open>Delayer.update\<close> is false without its right operands being
  evaluated, and no update of the tick depends on them (the \<open>facing\<close> entries are not
  changed by any update).
\<close>

definition delayers_plain :: "world \<Rightarrow> bool" where
  "delayers_plain w =
     list_all (\<lambda>(k, b). kind b = DELAYER \<longrightarrow> neighbours_plain w b) (blocks w)"

definition dict_ok :: "world \<Rightarrow> bool" where
  "dict_ok w = (distinct (map fst (blocks w)) \<and> list_all (\<lambda>(k, b). coords b = k) (blocks w))"

definition no_future :: "world \<Rightarrow> bool" where
  "no_future w = list_all (\<lambda>(k, b). last_updated b \<le> tick w) (blocks w)"

definition no_stored_air :: "world \<Rightarrow> bool" where
  "no_stored_air w = list_all (\<lambda>(k, b). kind b \<noteq> AIR) (blocks w)"

definition all_updated :: "world \<Rightarrow> int \<Rightarrow> bool" where
  "all_updated w t = list_all (\<lambda>(k, b). last_updated b = t) (blocks w)"

text \<open>
  The same notions on the dictionary read through \<open>map_of\<close> (\<open>plain_delayers\<close> is
  \<open>delayers_plain\<close> read so), the keys already updated in the current tick and those
  still pending, and the invariant of the inner loop: the pending set has no duplicates
  and holds keys of stored blocks that are not Air and are dated before the current
  tick; the keys logged so far are distinct and updated.
\<close>

definition wire_due :: "world \<Rightarrow> int \<Rightarrow> coords \<Rightarrow> bool" where
  "wire_due w t i =
     (case map_of (blocks w) i of
        None \<Rightarrow> False
      | Some b \<Rightarrow> kind b \<noteq> AIR \<and> last_updated b \<le> t)"

definition updated_keys :: "world \<Rightarrow> coords set" where
  "updated_keys w = {k. \<exists>b. map_of (blocks w) k = Some b \<and> last_updated b = tick w}"

definition pending_keys :: "world \<Rightarrow> coords set" where
  "pending_keys w = {k. \<exists>b. map_of (blocks w) k = Some b \<and> last_updated b \<noteq> tick w}"

definition own_keys :: "world \<Rightarrow> bool" where
  "own_keys w = (\<forall>k b. map_of (blocks w) k = Some b \<longrightarrow> coords b = k)"

definition past_only :: "world \<Rightarrow> bool" where
  "past_only w = (\<forall>k b. map_of (blocks w) k = Some b \<longrightarrow> last_updated b \<le> tick w)"

definition airless :: "world \<Rightarrow> bool" where
  "airless w = (\<forall>k b. map_of (blocks w) k = Some b \<longrightarrow> kind b \<noteq> AIR)"

definition plain_delayers :: "world \<Rightarrow> bool" where
  "plain_delayers w =
     (\<forall>k b. map_of (blocks w) k = Some b \<longrightarrow> kind b = DELAYER \<longrightarrow> neighbours_plain w b)"

definition ready :: "world \<Rightarrow> bool" where
  "ready w = (distinct (update_buffer w)
     \<and> (\<forall>k \<in> set (update_buffer w). wire_due w (tick w - 1) k))"

definition logged_ok :: "world \<Rightarrow> bool" where
  "logged_ok w = (distinct (update_log w) \<and> set (update_log w) \<subseteq> updated_keys w)"

section \<open>Properties\<close>

subsection \<open>Looking a block up\<close>

lemma get_block_fst:
  "fst (get_block w c) = (case map_of (blocks w) c of None \<Rightarrow> fst (Air_init w c) | Some b \<Rightarrow> b)"
  by (simp add: get_block_def Air_init_def split: option.split)

lemma get_block_snd: "snd (get_block w c) = w\<lparr>uuid_next := Suc (uuid_next w)\<rparr>"
  by (simp add: get_block_def Air_init_def)

text \<open>
  C7. \<open>get_block\<close> returns the block stored at the coordinate when there is one;
  otherwise it returns an Air block (empty state, the coordinate asked for) whose
  \<open>update\<close> changes neither the block nor the world. It has no error result, and the
  block map, the tick and the pending set are the same after the call in both cases.
\<close>

theorem get_block_stored_or_air:
  "(case map_of (blocks w) c of
      Some b \<Rightarrow> fst (get_block w c) = b
    | None \<Rightarrow> kind (fst (get_block w c)) = AIR \<and> state (fst (get_block w c)) = Map.empty
        \<and> coords (fst (get_block w c)) = c
        \<and> (\<forall>w'. update w' (fst (get_block w c)) = Inr (fst (get_block w c), w')))
   \<and> blocks (snd (get_block w c)) = blocks w
   \<and> tick (snd (get_block w c)) = tick w
   \<and> update_buffer (snd (get_block w c)) = update_buffer w"
  by (simp add: get_block_fst get_block_snd Air_init_def update_def update_Air_def
      split: option.split)

theorem get_block_stored_or_air_witness:
  "fst (get_block (world_of 1 [((1, 0, 0), power_at (1, 0, 0) 0 0)] 1) (1, 0, 0))
     = power_at (1, 0, 0) 0 0
   \<and> kind (fst (get_block (world_of 1 [((1, 0, 0), power_at (1, 0, 0) 0 0)] 1) (0, 0, 0))) = AIR
   \<and> blocks (snd (get_block (world_of 1 [((1, 0, 0), power_at (1, 0, 0) 0 0)] 1) (0, 0, 0)))
       = [((1, 0, 0), power_at (1, 0, 0) 0 0)]"
  using get_block_stored_or_air [of "world_of 1 [((1, 0, 0), power_at (1, 0, 0) 0 0)] 1" "(1, 0, 0)"]
    get_block_stored_or_air [of "world_of 1 [((1, 0, 0), power_at (1, 0, 0) 0 0)] 1" "(0, 0, 0)"]
  by (simp add: world_of_def)

text \<open>
  C10. At a coordinate absent from the block map, two successive calls of \<open>get_block\<close>
  return Air blocks carrying the next two tokens of the uuid source, so the two blocks
  are not equal to each other (\<open>Block.__eq__\<close> compares class and token), and neither is
  equal to a block stored in the map, whose token was drawn earlier.
\<close>

theorem get_block_fresh_air:
  assumes "map_of (blocks w) c = None"
    and "\<forall>k s. map_of (blocks w) k = Some s \<longrightarrow> gid s < uuid_next w"
  shows "kind (fst (get_block w c)) = AIR
     \<and> kind (fst (get_block (snd (get_block w c)) c)) = AIR
     \<and> gid (fst (get_block w c)) = uuid_next w
     \<and> gid (fst (get_block (snd (get_block w c)) c)) = Suc (uuid_next w)
     \<and> \<not> block_eq (fst (get_block w c)) (fst (get_block (snd (get_block w c)) c))
     \<and> \<not> block_eq (fst (get_block (snd (get_block w c)) c)) (fst (get_block w c))
     \<and> (\<forall>k s. map_of (blocks w) k = Some s \<longrightarrow>
           \<not> block_eq (fst (get_block w c)) s \<and> \<not> block_eq s (fst (get_block w c))
         \<and> \<not> block_eq (fst (get_block (snd (get_block w c)) c)) s
         \<and> \<not> block_eq s (fst (get_block (snd (get_block w c)) c)))"
proof -
  have old: "gid s < uuid_next w" if "map_of (blocks w) k = Some s" for k s
    using assms(2) that by blast
  have fresh: "gid s \<noteq> uuid_next w \<and> gid s \<noteq> Suc (uuid_next w)"
    if "map_of (blocks w) k = Some s" for k s
    using old [OF that] by simp
  show ?thesis
    using assms(1) fresh
    by (simp add: get_block_fst get_block_snd Air_init_def block_eq_def) metis
qed

theorem get_block_fresh_air_witness:
  "\<not> block_eq (fst (get_block (world_of 1 [((1, 0, 0), air_at (1, 0, 0) 0 0)] 1) (0, 0, 0)))
       (fst (get_block (snd (get_block (world_of 1 [((1, 0, 0), air_at (1, 0, 0) 0 0)] 1)
          (0, 0, 0))) (0, 0, 0)))
   \<and> \<not> block_eq (fst (get_block (world_of 1 [((1, 0, 0), air_at (1, 0, 0) 0 0)] 1) (0, 0, 0)))
       (air_at (1, 0, 0) 0 0)"
proof -
  let ?w = "world_of 1 [((1, 0, 0), air_at (1, 0, 0) 0 0)] 1"
  have a: "map_of (blocks ?w) (0, 0, 0) = None" by (simp add: world_of_def)
  have b: "\<forall>k s. map_of (blocks ?w) k = Some s \<longrightarrow> gid s < uuid_next ?w"
    by (simp add: world_of_def air_at_def)
  have c: "map_of (blocks ?w) (1, 0, 0) = Some (air_at (1, 0, 0) 0 0)" by (simp add: world_of_def)
  from get_block_fresh_air [OF a b] c show ?thesis by blast
qed

subsection \<open>Persistence\<close>

text \<open>
  C6. For every persisted tuple, \<open>load\<close> raises exactly when the tuple's version is
  greater than \<open>Engine.VERSION\<close> (and then it raises the version error); with an equal
  or smaller version it ends normally; and \<open>save\<close> writes \<open>Engine.VERSION\<close> as the
  first component of what it persists.
\<close>

theorem load_raises_iff_newer:
  "(\<exists>e. load (fs(file \<mapsto> (v, bs, t))) file = Inl e) = tuple_gt v VERSION
   \<and> (load (fs(file \<mapsto> (v, bs, t))) file = Inl UnknownVersion) = tuple_gt v VERSION
   \<and> (load (fs(file \<mapsto> (v, bs, t))) file = Inr None) = (\<not> tuple_gt v VERSION)
   \<and> save fs w file file = Some (VERSION, blocks w, tick w)"
  by (simp add: load_def save_def)

text \<open>
  C2. Loading the file that \<open>save\<close> has just written does not raise, and what the call
  returns is \<open>None\<close>, whatever the saved block map and tick were: the engine that \<open>load\<close>
  builds from the file is never returned.
\<close>

theorem load_after_save_returns_None:
  "load (save fs w file) file = Inr None"
  by (simp add: load_def save_def VERSION_def)

subsection \<open>Frame lemmas\<close>

lemma schedule_update_frame [simp]:
  "blocks (schedule_update w k) = blocks w"
  "tick (schedule_update w k) = tick w"
  "update_log (schedule_update w k) = update_log w"
  by (simp_all add: schedule_update_def)

lemma schedule_update_buffer [simp]:
  "set (update_buffer (schedule_update w k)) = insert k (set (update_buffer w))"
  by (auto simp add: schedule_update_def)

lemma schedule_update_distinct:
  "distinct (update_buffer w) \<Longrightarrow> distinct (update_buffer (schedule_update w k))"
  by (simp add: schedule_update_def)

lemma get_block_frame [simp]:
  "blocks (snd (get_block w c)) = blocks w"
  "tick (snd (get_block w c)) = tick w"
  "update_log (snd (get_block w c)) = update_log w"
  "update_buffer (snd (get_block w c)) = update_buffer w"
  by (simp_all add: get_block_snd)

lemma get_block_stored:
  "map_of (blocks w) c = Some b \<Longrightarrow> fst (get_block w c) = b"
  by (simp add: get_block_fst)

lemma get_block_absent:
  "map_of (blocks w) c = None \<Longrightarrow> kind (fst (get_block w c)) = AIR"
  by (simp add: get_block_fst Air_init_def)

lemma get_surrounding_block_None:
  "get_surrounding_block c None = Inr (cardinal_neighbours c)"
  by (cases c)
    (simp add: get_surrounding_block_def or_all_def all_directions_def
      get_surrounding_blocks_priv_def dict_index_def offset_dict_def cardinal_neighbours_def)

lemma power_loop_frame [simp]:
  "blocks (power_loop w cs) = blocks w"
  "tick (power_loop w cs) = tick w"
  "update_log (power_loop w cs) = update_log w"
  by (induction cs arbitrary: w; simp add: split_beta)+


lemmas eval_defs =
  world_of_def power_at_def wire_at_def delayer_at_def air_at_def
  get_surrounding_block_def get_surrounding_blocks_priv_def or_all_def all_directions_def
  dict_index_def offset_dict_def opposite_dict_def first_of_def
  delayer_input_coords_def delayer_output_coords_def get_truthy_def
  block_at_def get_block_def Air_init_def


subsection \<open>Power\<close>

lemma due_get_block:
  "(last_updated (fst (get_block w i)) \<noteq> tick w \<and> kind (fst (get_block w i)) \<noteq> AIR) = due w i"
  by (cases "map_of (blocks w) i") (auto simp add: due_def get_block_fst Air_init_def)

lemma due_cong: "blocks w' = blocks w \<Longrightarrow> tick w' = tick w \<Longrightarrow> due w' i = due w i"
  by (simp add: due_def split: option.split)

lemma power_loop_Cons:
  "power_loop w (i # cs) =
     power_loop (if due w i then schedule_update (snd (get_block w i)) i
                 else snd (get_block w i)) cs"
  by (simp add: split_beta due_get_block)

lemma power_loop_buffer:
  "set (update_buffer (power_loop w cs)) = set (update_buffer w) \<union> {i \<in> set cs. due w i}"
proof (induction cs arbitrary: w)
  case Nil
  show ?case by simp
next
  case (Cons i cs)
  let ?w' = "if due w i then schedule_update (snd (get_block w i)) i else snd (get_block w i)"
  have same: "due ?w' j = due w j" for j
    by (rule due_cong) simp_all
  have buf: "set (update_buffer ?w') = (if due w i then insert i (set (update_buffer w))
      else set (update_buffer w))"
    by simp
  have "set (update_buffer (power_loop w (i # cs))) = set (update_buffer ?w') \<union> {j \<in> set cs. due ?w' j}"
    unfolding power_loop_Cons by (rule Cons.IH)
  also have "\<dots> = set (update_buffer w) \<union> {j \<in> set (i # cs). due w j}"
    unfolding buf same by auto
  finally show ?case .
qed

text \<open>
  C8. A Power block comes out of its constructor with signal 16. Its \<open>update\<close> always
  returns, leaves its state dictionary as it was, leaves the block map alone, and adds
  to the pending set exactly the blocks due at the four cardinal neighbour positions:
  those stored there that are not Air and whose \<open>last_updated\<close> differs from the current
  tick, whatever their class.
\<close>

theorem power_signal_and_schedule:
  "(\<exists>self w'. Power_init w st c = Inr (self, w') \<and> kind self = POWER
       \<and> state self ''signal'' = Some (VInt 16))
   \<and> (\<exists>self' w'. update_Power w p = Inr (self', w') \<and> state self' = state p
       \<and> blocks w' = blocks w
       \<and> set (update_buffer w') =
           set (update_buffer w) \<union> {i \<in> set (cardinal_neighbours (coords p)). due w i})"
proof -
  have a: "\<exists>self w'. Power_init w st c = Inr (self, w') \<and> kind self = POWER
       \<and> state self ''signal'' = Some (VInt 16)"
    by (simp add: Power_init_def Block_init_def update_def update_Power_def
        get_surrounding_block_None)
  have b: "update_Power w p =
      Inr (p\<lparr>last_updated := tick w\<rparr>, power_loop w (cardinal_neighbours (coords p)))"
    by (simp add: update_Power_def get_surrounding_block_None)
  show ?thesis
    using a unfolding b by (simp add: power_loop_buffer)
qed

subsection \<open>Delayer\<close>

lemma truthy_value_raises:
  "truthy v \<Longrightarrow> get_surrounding_block_of_value v = Inl TypeError"
  by (cases v)
    (simp_all add: get_surrounding_block_of_value_def all_directions_def
      offset_dict_of_value_def)

lemma disallows_facing_raises:
  "get_truthy (state b) ''facing'' \<Longrightarrow> disallows self b = Inl TypeError"
  by (auto simp add: disallows_def get_truthy_def truthy_value_raises split: option.splits)

lemma disallows_plain:
  "\<not> get_truthy (state b) ''facing'' \<Longrightarrow> disallows self b = Inr False"
  by (simp add: disallows_def)

lemma disallows_never_True: "disallows self b \<noteq> Inr True"
  by (cases "get_truthy (state b) ''facing''")
    (simp_all add: disallows_facing_raises disallows_plain)

lemma delayer_blocked_never_True: "delayer_blocked self i o' \<noteq> Inr True"
  using disallows_never_True [of self i] disallows_never_True [of self o']
  by (auto simp add: delayer_blocked_def split: sum.splits bool.splits)

lemma get_block_state_cong:
  "blocks w' = blocks w \<Longrightarrow> state (fst (get_block w' c)) = state (fst (get_block w c))"
  by (simp add: get_block_fst Air_init_def split: option.split)

lemma delayer_blocked_plain:
  "delayer_blocked self i o' = Inr False \<longleftrightarrow>
     \<not> get_truthy (state i) ''facing'' \<and> \<not> get_truthy (state o') ''facing''"
  by (cases "get_truthy (state i) ''facing''"; cases "get_truthy (state o') ''facing''")
    (simp_all add: delayer_blocked_def disallows_facing_raises disallows_plain)

lemma delayer_blocked_cases:
  "delayer_blocked self i o' =
     (if get_truthy (state i) ''facing'' \<or> get_truthy (state o') ''facing''
      then Inl TypeError else Inr False)"
  by (cases "get_truthy (state i) ''facing''"; cases "get_truthy (state o') ''facing''")
    (simp_all add: delayer_blocked_def disallows_facing_raises disallows_plain)

lemma delayer_blocked_clear:
  "\<not> get_truthy (state i) ''facing'' \<Longrightarrow> \<not> get_truthy (state o') ''facing'' \<Longrightarrow>
     delayer_blocked self i o' = Inr False"
  by (simp add: delayer_blocked_def disallows_plain)

lemma update_Delayer_body:
  assumes "delayer_input_coords self = Inr ic" and "delayer_output_coords self = Inr oc"
  shows "update_Delayer w self =
       (let input_block = fst (get_block w ic); w1 = snd (get_block w ic);
            output_block = fst (get_block w1 oc); w2 = snd (get_block w1 oc)
        in case delayer_blocked self input_block output_block of
             Inl e \<Rightarrow> Inl e
           | Inr True \<Rightarrow> Inr (self, w2)
           | Inr False \<Rightarrow>
               (case (if get_truthy (state input_block) ''signal''
                      then delayer_count (state self)
                      else Inr (delayer_clear (state self))) of
                  Inl e \<Rightarrow> Inl e
                | Inr st \<Rightarrow>
                    (let w3 = (if last_updated input_block \<noteq> tick w2 \<and> kind input_block \<noteq> AIR
                               then schedule_update w2 ic else w2);
                         w4 = (if last_updated output_block \<noteq> tick w3 \<and> kind output_block \<noteq> AIR
                               then schedule_update w3 oc else w3)
                     in Inr (self\<lparr>state := st, last_updated := tick w4\<rparr>, w4))))"
  unfolding update_Delayer_def assms by (simp add: split_beta Let_def)

lemma update_Delayer_unfold:
  assumes "delayer_input_coords self = Inr ic" and "delayer_output_coords self = Inr oc"
  shows "update_Delayer w self =
     (if get_truthy (state (block_at w ic)) ''facing'' \<or> get_truthy (state (block_at w oc)) ''facing''
      then Inl TypeError
      else (case (if get_truthy (state (block_at w ic)) ''signal''
                  then delayer_count (state self) else Inr (delayer_clear (state self))) of
              Inl e \<Rightarrow> Inl e
            | Inr st \<Rightarrow>
                Inr (self\<lparr>state := st, last_updated := tick w\<rparr>,
                     (let w2 = snd (get_block (snd (get_block w ic)) oc);
                          w3 = (if due w ic then schedule_update w2 ic else w2)
                      in if due w oc then schedule_update w3 oc else w3))))"
proof -
  let ?w1 = "snd (get_block w ic)"
  have st: "state (fst (get_block ?w1 oc)) = state (fst (get_block w oc))"
    by (rule get_block_state_cong) simp
  have d1: "(last_updated (fst (get_block w ic)) \<noteq> tick w \<and> kind (fst (get_block w ic)) \<noteq> AIR)
      = due w ic"
    by (rule due_get_block)
  have d2: "(last_updated (fst (get_block ?w1 oc)) \<noteq> tick w \<and> kind (fst (get_block ?w1 oc)) \<noteq> AIR)
      = due w oc"
    using due_get_block [of ?w1 oc] due_cong [of ?w1 w oc] by simp
  note body = update_Delayer_body [OF assms]
  have t3: "tick (if c then schedule_update x k else x) = tick x" for c x k
    by simp
  show ?thesis
  proof (cases "get_truthy (state (fst (get_block w ic))) ''facing'' \<or> get_truthy (state (fst (get_block w oc))) ''facing''")
    case True
    then show ?thesis
      unfolding body block_at_def Let_def delayer_blocked_cases st by simp
  next
    case False
    then show ?thesis
      unfolding body block_at_def Let_def delayer_blocked_cases st t3 get_block_frame d1 d2
      by (simp split: sum.split)
  qed
qed

lemma update_Delayer_past_guard:
  assumes "delayer_input_coords self = Inr ic" and "delayer_output_coords self = Inr oc"
    and "\<not> get_truthy (state (block_at w ic)) ''facing''"
    and "\<not> get_truthy (state (block_at w oc)) ''facing''"
  shows "update_Delayer w self =
     (case (if get_truthy (state (block_at w ic)) ''signal''
            then delayer_count (state self) else Inr (delayer_clear (state self))) of
        Inl e \<Rightarrow> Inl e
      | Inr st \<Rightarrow>
          Inr (self\<lparr>state := st, last_updated := tick w\<rparr>,
               (let w2 = snd (get_block (snd (get_block w ic)) oc);
                    w3 = (if due w ic then schedule_update w2 ic else w2)
                in if due w oc then schedule_update w3 oc else w3)))"
proof -
  let ?w1 = "snd (get_block w ic)"
  have st: "state (fst (get_block ?w1 oc)) = state (fst (get_block w oc))"
    by (rule get_block_state_cong) simp
  have d1: "(last_updated (fst (get_block w ic)) \<noteq> tick w \<and> kind (fst (get_block w ic)) \<noteq> AIR)
      = due w ic"
    by (rule due_get_block)
  have d2: "(last_updated (fst (get_block ?w1 oc)) \<noteq> tick w \<and> kind (fst (get_block ?w1 oc)) \<noteq> AIR)
      = due w oc"
    using due_get_block [of ?w1 oc] due_cong [of ?w1 w oc] by simp
  have t3: "tick (if c then schedule_update x k else x) = tick x" for c x k
    by simp
  have g: "delayer_blocked self (fst (get_block w ic)) (fst (get_block ?w1 oc)) = Inr False"
    using assms(3,4) by (simp add: delayer_blocked_clear block_at_def st)
  show ?thesis
    unfolding update_Delayer_body [OF assms(1,2)] block_at_def Let_def g t3 get_block_frame d1 d2
    by (simp split: sum.split)
qed

text \<open>
  C3. When the input or the output neighbour of a delayer carries a true \<open>facing\<close>
  (whether or not it points at the delayer), \<open>Delayer.update\<close> does not return: the
  guard of the early \<open>return\<close> raises \<open>TypeError\<close>, because the neighbour's \<open>facing\<close>
  is passed where \<open>Utils.get_surrounding_block\<close> expects coordinates.
\<close>

theorem delayer_facing_neighbour_raises:
  assumes "delayer_input_coords self = Inr ic" and "delayer_output_coords self = Inr oc"
    and "get_truthy (state (block_at w ic)) ''facing'' \<or> get_truthy (state (block_at w oc)) ''facing''"
  shows "update_Delayer w self = Inl TypeError"
  using assms(3) unfolding update_Delayer_unfold [OF assms(1,2)] by simp

theorem delayer_facing_neighbour_raises_witness:
  "update_Delayer
     (world_of 1 [((0, 0, 0), delayer_at (0, 0, 0) ''north'' 1 0 0),
                  ((1, 0, 0), wire_at (1, 0, 0) (VStr ''east'') 3 0 1)] 2)
     (delayer_at (0, 0, 0) ''north'' 1 0 0) = Inl TypeError"
proof -
  let ?w = "world_of 1 [((0, 0, 0), delayer_at (0, 0, 0) ''north'' 1 0 0),
                  ((1, 0, 0), wire_at (1, 0, 0) (VStr ''east'') 3 0 1)] 2"
  let ?d = "delayer_at (0, 0, 0) ''north'' 1 0 0"
  have i: "delayer_input_coords ?d = Inr (1, 0, 0)" by (simp add: eval_defs)
  have o: "delayer_output_coords ?d = Inr (- 1, 0, 0)" by (simp add: eval_defs)
  have f: "get_truthy (state (block_at ?w (1, 0, 0))) ''facing''
      \<or> get_truthy (state (block_at ?w (- 1, 0, 0))) ''facing''"
    by (simp add: eval_defs)
  from delayer_facing_neighbour_raises [OF i o f] show ?thesis .
qed


lemma delayer_coords_cong:
  "state a ''facing'' = state b ''facing'' \<Longrightarrow> coords a = coords b \<Longrightarrow>
     delayer_input_coords a = delayer_input_coords b \<and>
     delayer_output_coords a = delayer_output_coords b"
  by (simp add: delayer_input_coords_def delayer_output_coords_def
      cong: option.case_cong sum.case_cong)

lemma input_high_cong:
  assumes "state a ''facing'' = state b ''facing''" and "coords a = coords b"
  shows "input_high w a = input_high w b \<and> neighbours_plain w a = neighbours_plain w b"
  using delayer_coords_cong [OF assms]
  by (simp add: input_high_def neighbours_plain_def cong: sum.case_cong)

lemma update_Delayer_high:
  assumes "input_high w self" and "neighbours_plain w self"
  shows "\<exists>w'. update_Delayer w self =
     (case delayer_count (state self) of
        Inl e \<Rightarrow> Inl e
      | Inr st \<Rightarrow> Inr (self\<lparr>state := st, last_updated := tick w\<rparr>, w'))"
proof -
  from assms(2) obtain ic oc where c: "delayer_input_coords self = Inr ic"
    "delayer_output_coords self = Inr oc"
    by (auto simp add: neighbours_plain_def split: sum.splits)
  from assms c have p: "\<not> get_truthy (state (block_at w ic)) ''facing''"
    "\<not> get_truthy (state (block_at w oc)) ''facing''"
    "get_truthy (state (block_at w ic)) ''signal''"
    by (simp_all add: neighbours_plain_def input_high_def)
  show ?thesis
    unfolding update_Delayer_unfold [OF c] using p by (auto split: sum.split)
qed

lemma update_Delayer_success:
  assumes "update_Delayer w self = Inr (self', w')"
  shows "neighbours_plain w self \<and>
     (if input_high w self then delayer_count (state self)
      else Inr (delayer_clear (state self))) = Inr (state self') \<and>
     self' = self\<lparr>state := state self', last_updated := tick w\<rparr>"
proof -
  from assms obtain ic oc where c: "delayer_input_coords self = Inr ic"
    "delayer_output_coords self = Inr oc"
    by (auto simp add: update_Delayer_def split: sum.splits)
  show ?thesis
    using assms unfolding update_Delayer_unfold [OF c]
    by (auto simp add: neighbours_plain_def input_high_def c split: if_splits sum.splits)
qed

lemma delayer_count_start:
  assumes "st ''timer'' = None" and "st ''delay'' = Some (VInt d)" and "0 \<le> d"
  shows "delayer_count st =
     Inr (if d = 0 then (st(''timer'' \<mapsto> VInt 0))(''signal'' \<mapsto> VInt 16)
          else st(''timer'' \<mapsto> VInt d))"
  using assms by (simp add: delayer_count_def get_truthy_def max_def)

lemma delayer_count_run:
  assumes "st ''timer'' = Some (VInt t)" and "1 \<le> t"
  shows "delayer_count st =
     Inr (if t = 1 then (st(''timer'' \<mapsto> VInt 0))(''signal'' \<mapsto> VInt 16)
          else st(''timer'' \<mapsto> VInt (t - 1)))"
  using assms by (simp add: delayer_count_def get_truthy_def max_def)

lemma countdown:
  assumes "\<forall>w \<in> set ws. input_high w self \<and> neighbours_plain w self"
    and "state self ''timer'' = Some (VInt t)" and "1 \<le> t" and "int (length ws) \<le> t"
  shows "\<exists>self'. delayer_updates ws self = Inr self' \<and>
     state self' ''signal'' =
       (if int (length ws) = t then Some (VInt 16) else state self ''signal'')"
  using assms
proof (induction ws arbitrary: self t)
  case Nil
  then show ?case by simp
next
  case (Cons w ws)
  from Cons.prems(1) have hi: "input_high w self" "neighbours_plain w self" by simp_all
  from update_Delayer_high [OF hi] obtain w' where
    u: "update_Delayer w self =
      (case delayer_count (state self) of Inl e \<Rightarrow> Inl e
       | Inr st \<Rightarrow> Inr (self\<lparr>state := st, last_updated := tick w\<rparr>, w'))" ..
  note cnt = delayer_count_run [of "state self" t, OF Cons.prems(2,3)]
  show ?case
  proof (cases "t = 1")
    case True
    with Cons.prems(4) have "ws = []" by simp
    with True show ?thesis by (simp add: u cnt)
  next
    case False
    let ?self1 = "self\<lparr>state := (state self)(''timer'' \<mapsto> VInt (t - 1)), last_updated := tick w\<rparr>"
    have step: "update_Delayer w self = Inr (?self1, w')"
      using False by (simp add: u cnt)
    have same: "input_high v ?self1 = input_high v self \<and>
        neighbours_plain v ?self1 = neighbours_plain v self" for v
      by (rule input_high_cong) simp_all
    have "\<exists>self'. delayer_updates ws ?self1 = Inr self' \<and>
        state self' ''signal'' =
          (if int (length ws) = t - 1 then Some (VInt 16) else state ?self1 ''signal'')"
    proof (rule Cons.IH)
      show "\<forall>v \<in> set ws. input_high v ?self1 \<and> neighbours_plain v ?self1"
        using Cons.prems(1) by (simp add: same)
      show "state ?self1 ''timer'' = Some (VInt (t - 1))" by simp
      show "1 \<le> t - 1" using False Cons.prems(3) by simp
      show "int (length ws) \<le> t - 1" using Cons.prems(4) by simp
    qed
    then show ?thesis by (auto simp add: step)
  qed
qed

text \<open>
  The countdown itself, for updates that get past the guard. A delayer with delay
  \<open>d \<ge> 0\<close>, no running timer and a signal other than 16 is updated once per world of
  \<open>ws\<close>, each world showing a true input signal and neighbours without \<open>facing\<close>: every
  update returns, and after at most \<open>d + 1\<close> of them the signal is 16 exactly when their
  number is \<open>d + 1\<close>. And an update that returns while the input signal is false removes
  the timer and sets the signal to 0.
\<close>

lemma delayer_fires_at_delay_plus_one:
  "(state self ''delay'' = Some (VInt d) \<and> 0 \<le> d \<and> state self ''timer'' = None
      \<and> state self ''signal'' \<noteq> Some (VInt 16)
      \<and> (\<forall>w \<in> set ws. input_high w self \<and> neighbours_plain w self)
      \<and> int (length ws) \<le> d + 1
    \<longrightarrow> (\<exists>self'. delayer_updates ws self = Inr self' \<and>
          (state self' ''signal'' = Some (VInt 16)) = (int (length ws) = d + 1)))
   \<and> (update_Delayer w self = Inr (self', w') \<and> \<not> input_high w self
    \<longrightarrow> state self' ''timer'' = None \<and> state self' ''signal'' = Some (VInt 0))"
proof (intro conjI impI)
  assume a: "state self ''delay'' = Some (VInt d) \<and> 0 \<le> d \<and> state self ''timer'' = None
      \<and> state self ''signal'' \<noteq> Some (VInt 16)
      \<and> (\<forall>w \<in> set ws. input_high w self \<and> neighbours_plain w self)
      \<and> int (length ws) \<le> d + 1"
  show "\<exists>self'. delayer_updates ws self = Inr self' \<and>
          (state self' ''signal'' = Some (VInt 16)) = (int (length ws) = d + 1)"
  proof (cases ws)
    case Nil
    with a show ?thesis by simp
  next
    case (Cons v vs)
    from a Cons have hi: "input_high v self" "neighbours_plain v self" by simp_all
    from update_Delayer_high [OF hi] obtain w1 where
      u: "update_Delayer v self =
        (case delayer_count (state self) of Inl e \<Rightarrow> Inl e
         | Inr st \<Rightarrow> Inr (self\<lparr>state := st, last_updated := tick v\<rparr>, w1))" ..
    from a have cnt: "delayer_count (state self) =
       Inr (if d = 0 then ((state self)(''timer'' \<mapsto> VInt 0))(''signal'' \<mapsto> VInt 16)
            else (state self)(''timer'' \<mapsto> VInt d))"
      by (intro delayer_count_start [of "state self" d]) simp_all
    show ?thesis
    proof (cases "d = 0")
      case True
      with a Cons have "vs = []" by simp
      with True Cons show ?thesis by (simp add: u cnt)
    next
      case False
      let ?self1 = "self\<lparr>state := (state self)(''timer'' \<mapsto> VInt d), last_updated := tick v\<rparr>"
      have step: "update_Delayer v self = Inr (?self1, w1)"
        using False by (simp add: u cnt)
      have same: "input_high x ?self1 = input_high x self \<and>
          neighbours_plain x ?self1 = neighbours_plain x self" for x
        by (rule input_high_cong) simp_all
      have "\<exists>self'. delayer_updates vs ?self1 = Inr self' \<and>
          state self' ''signal'' =
            (if int (length vs) = d then Some (VInt 16) else state ?self1 ''signal'')"
      proof (rule countdown)
        show "\<forall>x \<in> set vs. input_high x ?self1 \<and> neighbours_plain x ?self1"
          using a Cons by (simp add: same)
        show "state ?self1 ''timer'' = Some (VInt d)" by simp
        show "1 \<le> d" using False a by simp
        show "int (length vs) \<le> d" using a Cons by simp
      qed
      then show ?thesis using a Cons by (auto simp add: step)
    qed
  qed
next
  assume b: "update_Delayer w self = Inr (self', w') \<and> \<not> input_high w self"
  from update_Delayer_success [of w self self' w'] b
  have "state self' = delayer_clear (state self)" by simp
  then show "state self' ''timer'' = None" "state self' ''signal'' = Some (VInt 0)"
    by (simp_all add: delayer_clear_def)
qed

lemma delayer_fires_example:
  "(\<exists>self'. delayer_updates [fed_world, fed_world, fed_world] (delayer_at (0, 0, 0) ''north'' 2 0 0)
       = Inr self' \<and> state self' ''signal'' = Some (VInt 16))
   \<and> (\<exists>self'. delayer_updates [fed_world, fed_world] (delayer_at (0, 0, 0) ''north'' 2 0 0)
       = Inr self' \<and> state self' ''signal'' \<noteq> Some (VInt 16))
   \<and> (\<exists>self' w'. update_Delayer empty_world (delayer_at (0, 0, 0) ''north'' 2 0 0) = Inr (self', w')
       \<and> state self' ''timer'' = None \<and> state self' ''signal'' = Some (VInt 0))"
proof -
  let ?d = "delayer_at (0, 0, 0) ''north'' 2 0 0"
  have i: "delayer_input_coords ?d = Inr (1, 0, 0)" by (simp add: eval_defs)
  have o: "delayer_output_coords ?d = Inr (- 1, 0, 0)" by (simp add: eval_defs)
  have hi: "input_high fed_world ?d \<and> neighbours_plain fed_world ?d"
    unfolding input_high_def neighbours_plain_def i o
    by (simp add: fed_world_def eval_defs)
  have st: "state ?d ''delay'' = Some (VInt 2) \<and> (0::int) \<le> 2 \<and> state ?d ''timer'' = None
      \<and> state ?d ''signal'' \<noteq> Some (VInt 16)"
    by (simp add: delayer_at_def)
  have lo: "\<not> input_high empty_world ?d"
    unfolding input_high_def i by (simp add: empty_world_def eval_defs)
  have "neighbours_plain empty_world ?d"
    unfolding neighbours_plain_def i o by (simp add: empty_world_def eval_defs)
  then obtain self' w' where u: "update_Delayer empty_world ?d = Inr (self', w')"
    unfolding update_Delayer_unfold [OF i o] using lo
    by (simp add: neighbours_plain_def input_high_def i o)
  from delayer_fires_at_delay_plus_one [of ?d 2 "[fed_world, fed_world, fed_world]" empty_world self' w']
    delayer_fires_at_delay_plus_one [of ?d 2 "[fed_world, fed_world]" empty_world self' w']
    hi st lo u
  show ?thesis by simp
qed


text \<open>
  C5. The input neighbour of a delayer is most often a wire, and a wire carries a
  \<open>facing\<close>. Then the delayer does not behave as stated: with the input wire at signal
  5 every update raises \<open>TypeError\<close> in the guard, so after \<open>d + 1 = 2\<close> updates the
  signal is not 16; and with the input wire at signal 0 the update raises as well, so
  the running timer is not removed and the signal is not set to 0.
\<close>

theorem delayer_behind_wire_never_fires:
  "update_Delayer wire_fed_world (delayer_at (0, 0, 0) ''north'' 1 0 0) = Inl TypeError
   \<and> delayer_updates [wire_fed_world, wire_fed_world] (delayer_at (0, 0, 0) ''north'' 1 0 0)
       = Inl TypeError
   \<and> get_truthy (state (block_at wire_fed_world (1, 0, 0))) ''signal''
   \<and> update_Delayer wire_idle_world counting_delayer = Inl TypeError
   \<and> \<not> get_truthy (state (block_at wire_idle_world (1, 0, 0))) ''signal''
   \<and> state counting_delayer ''timer'' = Some (VInt 1)"
proof -
  let ?d = "delayer_at (0, 0, 0) ''north'' 1 0 0"
  have i: "delayer_input_coords ?d = Inr (1, 0, 0)"
    "delayer_input_coords counting_delayer = Inr (1, 0, 0)"
    by (simp_all add: counting_delayer_def eval_defs)
  have o: "delayer_output_coords ?d = Inr (- 1, 0, 0)"
    "delayer_output_coords counting_delayer = Inr (- 1, 0, 0)"
    by (simp_all add: counting_delayer_def eval_defs)
  have a: "update_Delayer wire_fed_world ?d = Inl TypeError"
    unfolding update_Delayer_unfold [OF i(1) o(1)]
    by (simp add: wire_fed_world_def eval_defs)
  have b: "update_Delayer wire_idle_world counting_delayer = Inl TypeError"
    unfolding update_Delayer_unfold [OF i(2) o(2)]
    by (simp add: wire_idle_world_def eval_defs)
  show ?thesis
    using a b
    by (simp add: wire_fed_world_def wire_idle_world_def counting_delayer_def eval_defs)
qed

subsection \<open>Wire\<close>

lemma wire_skips_cong:
  "coords s1 = coords s2 \<Longrightarrow> state b1 = state b2 \<Longrightarrow> coords b1 = coords b2 \<Longrightarrow>
     wire_skips s1 b1 = wire_skips s2 b2"
  by (simp add: wire_skips_def cong: option.case_cong sum.case_cong pyval.case_cong if_cong)

lemma block_at_cong:
  "blocks w' = blocks w \<Longrightarrow>
     state (block_at w' c) = state (block_at w c) \<and> coords (block_at w' c) = coords (block_at w c)
     \<and> kind (block_at w' c) = kind (block_at w c)"
  by (simp add: block_at_def get_block_fst Air_init_def split: option.split)

lemma not_skipped_cong:
  assumes "blocks w' = blocks w" and "coords s' = coords s"
  shows "wire_skips s' (block_at w' c) = wire_skips s (block_at w c)"
  using wire_skips_cong [of s' s "block_at w' c" "block_at w c"] block_at_cong [OF assms(1), of c]
    assms(2)
  by simp

lemma signal_or_0_cong:
  assumes "blocks w' = blocks w"
  shows "signal_or_0 (block_at w' c) = signal_or_0 (block_at w c)"
  using block_at_cong [OF assms, of c] by (simp add: signal_or_0_def)

lemma kept_signals_cong:
  assumes "blocks w' = blocks w" and "coords s' = coords s"
  shows "map (\<lambda>i. signal_or_0 (block_at w' i) - 1)
           (filter (\<lambda>i. wire_skips s' (block_at w' i) = Inr False) cs)
       = map (\<lambda>i. signal_or_0 (block_at w i) - 1)
           (filter (\<lambda>i. wire_skips s (block_at w i) = Inr False) cs)"
  by (simp add: not_skipped_cong [OF assms] signal_or_0_cong [OF assms(1)])

lemma wire_max_value:
  assumes "wire_max self blk = Inr m" and "state self ''signal'' = Some (VInt a)"
  shows "m = max (signal_or_0 blk - 1) a"
proof (cases "state blk ''signal''")
  case None
  with assms show ?thesis by (simp add: wire_max_def signal_or_0_def)
next
  case (Some v)
  with assms show ?thesis by (cases v) (simp_all add: wire_max_def signal_or_0_def)
qed

lemma Max_push: "Max (set (max b a # xs)) = Max (set ((a::int) # b # xs))"
  by (cases "xs = []") (simp_all add: max.commute max.left_commute)

lemma wire_loop_Cons:
  "wire_loop w self (i # cs) =
     (let w2 = (if last_updated (block_at w i) \<le> last_updated self \<and> kind (block_at w i) \<noteq> AIR
                then schedule_update (snd (get_block w i)) i else snd (get_block w i))
      in case wire_skips self (block_at w i) of
           Inl e \<Rightarrow> Inl e
         | Inr True \<Rightarrow> wire_loop w2 self cs
         | Inr False \<Rightarrow>
             (case wire_max self (block_at w i) of
                Inl e \<Rightarrow> Inl e
              | Inr m \<Rightarrow> wire_loop w2 (self\<lparr>state := (state self)(''signal'' \<mapsto> VInt m)\<rparr>) cs))"
  unfolding block_at_def by (simp add: split_beta Let_def)

declare wire_loop.simps(2) [simp del]

lemma wire_loop_signal:
  assumes "wire_loop w self cs = Inr (self', w')" and "state self ''signal'' = Some (VInt a)"
  shows "state self' ''signal'' =
      Some (VInt (Max (set (a # map (\<lambda>i. signal_or_0 (block_at w i) - 1)
                                  (filter (\<lambda>i. wire_skips self (block_at w i) = Inr False) cs)))))"
  using assms
proof (induction cs arbitrary: w self a)
  case Nil
  then show ?case by simp
next
  case (Cons i cs)
  let ?w2 = "if last_updated (block_at w i) \<le> last_updated self \<and> kind (block_at w i) \<noteq> AIR
             then schedule_update (snd (get_block w i)) i else snd (get_block w i)"
  have bl: "blocks ?w2 = blocks w" by simp
  show ?case
  proof (cases "wire_skips self (block_at w i)")
    case (Inl e)
    with Cons.prems(1) show ?thesis by (simp add: wire_loop_Cons)
  next
    case (Inr skip)
    show ?thesis
    proof (cases skip)
      case True
      with Inr Cons.prems(1) have "wire_loop ?w2 self cs = Inr (self', w')"
        by (simp add: wire_loop_Cons)
      from Cons.IH [OF this Cons.prems(2)]
      show ?thesis
        unfolding kept_signals_cong [OF bl refl]
        using Inr True by simp
    next
      case False
      with Inr Cons.prems(1) obtain m where
        m: "wire_max self (block_at w i) = Inr m" and
        l: "wire_loop ?w2 (self\<lparr>state := (state self)(''signal'' \<mapsto> VInt m)\<rparr>) cs = Inr (self', w')"
        by (auto simp add: wire_loop_Cons split: sum.splits)
      let ?s2 = "self\<lparr>state := (state self)(''signal'' \<mapsto> VInt m)\<rparr>"
      have co: "coords ?s2 = coords self" by simp
      have sg: "state ?s2 ''signal'' = Some (VInt m)" by simp
      from wire_max_value [OF m Cons.prems(2)] have mv: "m = max (signal_or_0 (block_at w i) - 1) a" .
      have cf: "wire_skips self (block_at w i) = Inr False"
        using Inr False by simp
      from Cons.IH [OF l sg]
      have "state self' ''signal'' =
          Some (VInt (Max (set (m
             # map (\<lambda>i. signal_or_0 (block_at w i) - 1)
                 (filter (\<lambda>i. wire_skips self (block_at w i) = Inr False) cs)))))"
        unfolding kept_signals_cong [OF bl co] .
      then have "state self' ''signal'' =
          Some (VInt (Max (set (a # (signal_or_0 (block_at w i) - 1)
             # map (\<lambda>i. signal_or_0 (block_at w i) - 1)
                 (filter (\<lambda>i. wire_skips self (block_at w i) = Inr False) cs)))))"
        unfolding mv Max_push .
      then show ?thesis using cf by simp
    qed
  qed
qed


lemma wire_loop_tests:
  assumes "wire_loop w self cs = Inr (self', w')" and "i \<in> set cs"
  shows "\<exists>sk. wire_skips self (block_at w i) = Inr sk"
  using assms
proof (induction cs arbitrary: w self)
  case Nil
  then show ?case by simp
next
  case (Cons j cs)
  let ?w2 = "if last_updated (block_at w j) \<le> last_updated self \<and> kind (block_at w j) \<noteq> AIR
             then schedule_update (snd (get_block w j)) j else snd (get_block w j)"
  have bl: "blocks ?w2 = blocks w" by simp
  from Cons.prems(1) obtain sk where sk: "wire_skips self (block_at w j) = Inr sk"
    by (cases "wire_skips self (block_at w j)") (simp_all add: wire_loop_Cons)
  show ?case
  proof (cases "i = j")
    case True
    with sk show ?thesis by blast
  next
    case False
    with Cons.prems(2) have i: "i \<in> set cs" by simp
    from sk Cons.prems(1) obtain s2 where
      l: "wire_loop ?w2 s2 cs = Inr (self', w')" and c: "coords s2 = coords self"
      by (cases sk) (auto simp add: wire_loop_Cons split: sum.splits)
    from Cons.IH [OF l i] show ?thesis
      unfolding not_skipped_cong [OF bl c] .
  qed
qed

text \<open>The code's topology is the one of \<open>side\<close>, and its skip test is \<open>forwards_to\<close>.\<close>

lemma offset_is_side: "dict_index (offset_dict c) d = Inr p \<Longrightarrow> p = side c d"
  by (cases c) (auto simp add: dict_index_def offset_dict_def side_def split: if_splits)

lemma opposite_dict_is_opposite: "dict_index opposite_dict d = Inr opp \<Longrightarrow> opp = opposite d"
  by (auto simp add: dict_index_def opposite_dict_def opposite_def split: if_splits)

lemma yield_all_is_sides: "yield_all c ds = Inr ps \<Longrightarrow> ps = map (side c) ds"
proof (induction ds arbitrary: ps)
  case Nil
  then show ?case by simp
next
  case (Cons d ds)
  then show ?case by (auto split: sum.splits dest: offset_is_side)
qed

lemma cardinal_is_sides: "cardinal_neighbours c = map (side c) all_directions"
  by (cases c) (simp add: cardinal_neighbours_def side_def all_directions_def)

lemma surrounding_is_facing_sides:
  assumes "get_surrounding_block c (Some f) = Inr cs"
  shows "cs = facing_sides c f"
proof (cases "truthy f")
  case False
  with assms have "yield_all c all_directions = Inr cs"
    by (simp add: get_surrounding_block_def or_all_def get_surrounding_blocks_priv_def
        all_directions_def)
  from yield_all_is_sides [OF this] False show ?thesis
    by (simp add: facing_sides_def cardinal_is_sides)
next
  case True
  show ?thesis
  proof (cases f)
    case (VInt n)
    with True assms show ?thesis
      by (simp add: get_surrounding_block_def or_all_def)
  next
    case (VStr d)
    with True assms obtain p where "dict_index (offset_dict c) d = Inr p" and "cs = [p]"
      by (auto simp add: get_surrounding_block_def or_all_def split: sum.splits)
    with VStr True offset_is_side [of c d p] show ?thesis
      by (simp add: facing_sides_def)
  next
    case (VList ds)
    with True assms have "yield_all c ds = Inr cs"
      by (simp add: get_surrounding_block_def or_all_def get_surrounding_blocks_priv_def)
    from yield_all_is_sides [OF this] VList True show ?thesis
      by (simp add: facing_sides_def)
  qed
qed

lemma wire_skips_is_forwards:
  assumes "wire_skips self blk = Inr sk"
  shows "sk = (\<not> forwards_to blk (coords self))"
proof (cases "state blk ''facing''")
  case None
  with assms show ?thesis by (simp add: wire_skips_def forwards_to_def)
next
  case (Some f)
  show ?thesis
  proof (cases "truthy f")
    case False
    with Some assms show ?thesis by (simp add: wire_skips_def forwards_to_def)
  next
    case True
    show ?thesis
    proof (cases f)
      case (VInt n)
      with True Some assms show ?thesis by (simp add: wire_skips_def forwards_to_def)
    next
      case (VStr d)
      with True Some assms obtain opp cs where
        o: "dict_index opposite_dict d = Inr opp" and
        c: "get_surrounding_block (coords blk) (Some (VList [opp])) = Inr cs" and
        s: "sk = (coords self \<notin> set cs)"
        by (auto simp add: wire_skips_def split: sum.splits)
      from surrounding_is_facing_sides [OF c] opposite_dict_is_opposite [OF o]
      have "cs = [side (coords blk) (opposite d)]" by (simp add: facing_sides_def)
      with s VStr True Some show ?thesis by (simp add: forwards_to_def)
    next
      case (VList ds)
      with True Some assms obtain cs where
        c: "get_surrounding_block (coords blk) (Some (VList ds)) = Inr cs" and
        s: "sk = (coords self \<notin> set cs)"
        by (auto simp add: wire_skips_def split: sum.splits)
      from surrounding_is_facing_sides [OF c] VList True
      have "cs = map (side (coords blk)) ds" by (simp add: facing_sides_def)
      with s VList True Some show ?thesis by (simp add: forwards_to_def)
    qed
  qed
qed

text \<open>
  C4 (as amended). For a wire with a \<open>facing\<close> entry, when \<open>update\<close> returns its signal
  is the maximum of 0 and of \<open>signal - 1\<close> over the neighbours at the positions its
  facing reads (\<open>facing_sides\<close>) that forward to the wire (\<open>forwards_to\<close>): a neighbour
  without a true \<open>facing\<close> always counts, one with a list of directions counts when the
  wire is on a listed side, and one with a direction string counts when the wire is on
  the side opposite to that direction.
\<close>

theorem wire_signal_is_max_of_forwarders:
  assumes "state self ''facing'' = Some f"
    and "update_Wire w self = Inr (self', w')"
  shows "state self' ''signal'' = Some (VInt (wire_signal_forwarded w self f))"
proof -
  let ?s1 = "self\<lparr>state := (state self)(''signal'' \<mapsto> VInt 0)\<rparr>"
  from assms obtain cs s2 where
    cs: "get_surrounding_block (coords self) (Some f) = Inr cs" and
    l: "wire_loop w ?s1 cs = Inr (s2, w')" and
    s: "self' = s2\<lparr>last_updated := tick w'\<rparr>"
    by (auto simp add: update_Wire_def Let_def split: sum.splits)
  have "state ?s1 ''signal'' = Some (VInt 0)" by simp
  from wire_loop_signal [OF l this]
  have r: "state s2 ''signal'' =
      Some (VInt (Max (set (0 # map (\<lambda>i. signal_or_0 (block_at w i) - 1)
          (filter (\<lambda>i. wire_skips ?s1 (block_at w i) = Inr False) cs)))))" .
  have "(wire_skips ?s1 (block_at w i) = Inr False) = forwards_to (block_at w i) (coords self)"
    if "i \<in> set cs" for i
  proof -
    from wire_loop_tests [OF l that] obtain sk where
      sk: "wire_skips ?s1 (block_at w i) = Inr sk" ..
    from wire_skips_is_forwards [OF sk] sk show ?thesis by auto
  qed
  then have feq: "filter (\<lambda>i. wire_skips ?s1 (block_at w i) = Inr False) cs
      = filter (\<lambda>i. forwards_to (block_at w i) (coords self)) cs"
    by (intro filter_cong) simp_all
  note ce = surrounding_is_facing_sides [OF cs]
  from r [unfolded ce] have "state s2 ''signal'' = Some (VInt (wire_signal_forwarded w self f))"
    unfolding feq [unfolded ce] wire_signal_forwarded_def .
  with s show ?thesis by simp
qed

lemma wire_signal_forwarded_alone:
  assumes "\<forall>i \<in> set (facing_sides (coords self) f). map_of (blocks w) i = None"
  shows "wire_signal_forwarded w self f = 0"
  unfolding wire_signal_forwarded_def
proof (rule Max_eqI)
  fix y
  assume "y \<in> set (0 # map (\<lambda>i. signal_or_0 (block_at w i) - 1)
        (filter (\<lambda>i. forwards_to (block_at w i) (coords self)) (facing_sides (coords self) f)))"
  then consider "y = 0"
    | i where "i \<in> set (facing_sides (coords self) f)" "y = signal_or_0 (block_at w i) - 1"
    by auto
  then show "y \<le> 0"
  proof cases
    case 1
    then show ?thesis by simp
  next
    case 2
    with assms show ?thesis
      by (simp add: signal_or_0_def block_at_def get_block_fst Air_init_def)
  qed
qed simp_all

text \<open>
  C4 as stated fails for a neighbour whose \<open>facing\<close> is a direction string: one that
  points away from the wire is counted (the wire gets 8 from its signal 9), and one
  that points at the wire is skipped (the wire gets 0).
\<close>

theorem wire_signal_counterexample:
  "(case update_Wire away_world (wire_at (0, 0, 0) (VStr ''north'') 0 0 0) of
      Inl e \<Rightarrow> None | Inr (s', w') \<Rightarrow> state s' ''signal'') = Some (VInt 8)
   \<and> points_away (block_at away_world (1, 0, 0)) (0, 0, 0)
   \<and> wire_signal_claimed away_world (wire_at (0, 0, 0) (VStr ''north'') 0 0 0) (VStr ''north'') = 0
   \<and> (case update_Wire toward_world (wire_at (0, 0, 0) (VStr ''north'') 0 0 0) of
      Inl e \<Rightarrow> None | Inr (s', w') \<Rightarrow> state s' ''signal'') = Some (VInt 0)
   \<and> \<not> points_away (block_at toward_world (1, 0, 0)) (0, 0, 0)
   \<and> wire_signal_claimed toward_world (wire_at (0, 0, 0) (VStr ''north'') 0 0 0) (VStr ''north'') = 8"
  by code_simp

theorem wire_signal_is_max_of_forwarders_witness:
  "state (wire_at (0, 0, 0) (VStr ''north'') 0 0 0) ''facing'' = Some (VStr ''north'')
   \<and> (\<exists>self' w'. update_Wire away_world (wire_at (0, 0, 0) (VStr ''north'') 0 0 0) = Inr (self', w')
        \<and> state self' ''signal'' = Some (VInt 8))
   \<and> wire_signal_forwarded away_world (wire_at (0, 0, 0) (VStr ''north'') 0 0 0) (VStr ''north'') = 8"
proof -
  let ?s = "wire_at (0, 0, 0) (VStr ''north'') 0 0 0"
  have f: "state ?s ''facing'' = Some (VStr ''north'')" by (simp add: wire_at_def)
  have "(case update_Wire away_world ?s of Inl e \<Rightarrow> False | Inr r \<Rightarrow> True)" by code_simp
  then obtain self' w' where u: "update_Wire away_world ?s = Inr (self', w')"
    by (auto split: sum.splits)
  have v: "wire_signal_forwarded away_world ?s (VStr ''north'') = 8" by code_simp
  from wire_signal_is_max_of_forwarders [OF f u] f u v show ?thesis by auto
qed

subsection \<open>What one update does to the world\<close>

lemma offset_not_self: "dict_index (offset_dict c) i = Inr p \<Longrightarrow> p \<noteq> c"
  by (cases c) (auto simp add: dict_index_def offset_dict_def split: if_splits)

lemma yield_all_not_self: "yield_all c ds = Inr ps \<Longrightarrow> c \<notin> set ps"
proof (induction ds arbitrary: ps)
  case Nil
  then show ?case by simp
next
  case (Cons i ds)
  then show ?case
    by (auto split: sum.splits dest: offset_not_self)
qed

lemma get_surrounding_block_not_self:
  "get_surrounding_block c d = Inr cs \<Longrightarrow> c \<notin> set cs"
  by (auto simp add: get_surrounding_block_def get_surrounding_blocks_priv_def
      split: pyval.splits sum.splits dest: yield_all_not_self offset_not_self)

lemma first_of_mem: "first_of cs = Inr c \<Longrightarrow> c \<in> set cs"
  by (cases cs) (simp_all add: first_of_def)

lemma delayer_coords_not_self:
  "delayer_input_coords self = Inr ic \<Longrightarrow> ic \<noteq> coords self"
  "delayer_output_coords self = Inr oc \<Longrightarrow> oc \<noteq> coords self"
  by (auto simp add: delayer_input_coords_def delayer_output_coords_def
      split: option.splits sum.splits
      dest!: first_of_mem get_surrounding_block_not_self)

lemma power_loop_distinct:
  "distinct (update_buffer w) \<Longrightarrow> distinct (update_buffer (power_loop w cs))"
proof (induction cs arbitrary: w)
  case Nil
  then show ?case by simp
next
  case (Cons i cs)
  show ?case
    unfolding power_loop_Cons
    by (rule Cons.IH) (simp add: Cons.prems schedule_update_distinct)
qed

lemma update_Power_eq:
  "update_Power w p =
     Inr (p\<lparr>last_updated := tick w\<rparr>, power_loop w (cardinal_neighbours (coords p)))"
  by (simp add: update_Power_def get_surrounding_block_None)

lemma cardinal_not_self: "c \<notin> set (cardinal_neighbours c)"
  using get_surrounding_block_not_self [OF get_surrounding_block_None] .

lemma wire_due_block_at:
  "(last_updated (block_at w i) \<le> t \<and> kind (block_at w i) \<noteq> AIR) = wire_due w t i"
  by (cases "map_of (blocks w) i")
    (auto simp add: wire_due_def block_at_def get_block_fst Air_init_def)

lemma wire_due_cong: "blocks w' = blocks w \<Longrightarrow> wire_due w' t i = wire_due w t i"
  by (simp add: wire_due_def)

lemma wire_loop_step:
  assumes "wire_loop w self (i # cs) = Inr (self', w')"
  obtains s2 where
    "wire_loop (if wire_due w (last_updated self) i
                then schedule_update (snd (get_block w i)) i else snd (get_block w i)) s2 cs
       = Inr (self', w')"
    "coords s2 = coords self" "kind s2 = kind self" "last_updated s2 = last_updated self"
proof (cases "wire_skips self (block_at w i)")
  case (Inl e)
  with assms show ?thesis by (simp add: wire_loop_Cons)
next
  case (Inr skip)
  show ?thesis
  proof (cases skip)
    case True
    with Inr assms that [of self] show ?thesis
      by (simp add: wire_loop_Cons wire_due_block_at)
  next
    case False
    with Inr assms obtain m where
      "wire_loop (if wire_due w (last_updated self) i
                then schedule_update (snd (get_block w i)) i else snd (get_block w i))
         (self\<lparr>state := (state self)(''signal'' \<mapsto> VInt m)\<rparr>) cs = Inr (self', w')"
      by (auto simp add: wire_loop_Cons wire_due_block_at split: sum.splits)
    with that [of "self\<lparr>state := (state self)(''signal'' \<mapsto> VInt m)\<rparr>"] show ?thesis
      by simp
  qed
qed

lemma wire_loop_frame:
  assumes "wire_loop w self cs = Inr (self', w')"
  shows "blocks w' = blocks w \<and> tick w' = tick w \<and> update_log w' = update_log w
     \<and> coords self' = coords self \<and> kind self' = kind self
     \<and> last_updated self' = last_updated self
     \<and> (distinct (update_buffer w) \<longrightarrow> distinct (update_buffer w'))
     \<and> set (update_buffer w') \<subseteq>
         set (update_buffer w) \<union> {i \<in> set cs. wire_due w (last_updated self) i}
     \<and> set (update_buffer w) \<subseteq> set (update_buffer w')"
  using assms
proof (induction cs arbitrary: w self)
  case Nil
  then show ?case by simp
next
  case (Cons i cs)
  let ?w2 = "if wire_due w (last_updated self) i
             then schedule_update (snd (get_block w i)) i else snd (get_block w i)"
  from wire_loop_step [OF Cons.prems] obtain s2 where
    l: "wire_loop ?w2 s2 cs = Inr (self', w')" and
    s: "coords s2 = coords self" "kind s2 = kind self" "last_updated s2 = last_updated self"
    by blast
  have fr: "blocks ?w2 = blocks w" "tick ?w2 = tick w" "update_log ?w2 = update_log w"
    by simp_all
  have di: "distinct (update_buffer w) \<Longrightarrow> distinct (update_buffer ?w2)"
    by (simp add: schedule_update_distinct)
  have bu: "set (update_buffer ?w2) \<subseteq>
      set (update_buffer w) \<union> {j \<in> set [i]. wire_due w (last_updated self) j}"
    by auto
  have mo: "set (update_buffer w) \<subseteq> set (update_buffer ?w2)"
    by auto
  have du: "wire_due ?w2 t j = wire_due w t j" for t j
    by (rule wire_due_cong) simp
  from Cons.IH [OF l]
  have ih: "blocks w' = blocks ?w2" "tick w' = tick ?w2" "update_log w' = update_log ?w2"
    "coords self' = coords s2" "kind self' = kind s2" "last_updated self' = last_updated s2"
    "distinct (update_buffer ?w2) \<longrightarrow> distinct (update_buffer w')"
    "set (update_buffer w') \<subseteq>
       set (update_buffer ?w2) \<union> {j \<in> set cs. wire_due ?w2 (last_updated s2) j}"
    "set (update_buffer ?w2) \<subseteq> set (update_buffer w')"
    by blast+
  from ih(8) bu have "set (update_buffer w') \<subseteq>
      set (update_buffer w) \<union> {j \<in> set (i # cs). wire_due w (last_updated self) j}"
    unfolding du s by auto
  moreover from ih(9) mo have "set (update_buffer w) \<subseteq> set (update_buffer w')"
    by blast
  ultimately show ?case
    using ih(1-7) di unfolding fr s by blast
qed

lemma update_Wire_effect:
  assumes "update_Wire w b = Inr (b', w')"
  shows "blocks w' = blocks w \<and> tick w' = tick w \<and> update_log w' = update_log w
     \<and> coords b' = coords b \<and> kind b' = kind b \<and> last_updated b' = tick w
     \<and> (distinct (update_buffer w) \<longrightarrow> distinct (update_buffer w'))
     \<and> set (update_buffer w') \<subseteq>
         set (update_buffer w) \<union> {i. i \<noteq> coords b \<and> wire_due w (last_updated b) i}
     \<and> set (update_buffer w) \<subseteq> set (update_buffer w')"
proof -
  let ?s1 = "b\<lparr>state := (state b)(''signal'' \<mapsto> VInt 0)\<rparr>"
  from assms obtain f cs s2 where
    cs: "get_surrounding_block (coords b) (Some f) = Inr cs" and
    l: "wire_loop w ?s1 cs = Inr (s2, w')" and
    s: "b' = s2\<lparr>last_updated := tick w'\<rparr>"
    by (auto simp add: update_Wire_def Let_def split: sum.splits option.splits)
  from get_surrounding_block_not_self [OF cs] have ns: "coords b \<notin> set cs" .
  from wire_loop_frame [OF l]
  have fr: "blocks w' = blocks w" "tick w' = tick w" "update_log w' = update_log w"
    "coords s2 = coords b" "kind s2 = kind b"
    "distinct (update_buffer w) \<longrightarrow> distinct (update_buffer w')"
    "set (update_buffer w') \<subseteq>
       set (update_buffer w) \<union> {i \<in> set cs. wire_due w (last_updated b) i}"
    "set (update_buffer w) \<subseteq> set (update_buffer w')"
    by simp_all
  from fr(7) ns have "set (update_buffer w') \<subseteq>
      set (update_buffer w) \<union> {i. i \<noteq> coords b \<and> wire_due w (last_updated b) i}"
    by auto
  with fr(1-6) fr(8) s show ?thesis by simp
qed

lemma update_Power_effect:
  assumes "update_Power w b = Inr (b', w')"
  shows "blocks w' = blocks w \<and> tick w' = tick w \<and> update_log w' = update_log w
     \<and> coords b' = coords b \<and> kind b' = kind b \<and> last_updated b' = tick w
     \<and> (distinct (update_buffer w) \<longrightarrow> distinct (update_buffer w'))
     \<and> set (update_buffer w') \<subseteq> set (update_buffer w) \<union> {i. i \<noteq> coords b \<and> due w i}
     \<and> set (update_buffer w) \<subseteq> set (update_buffer w')"
proof -
  from assms have b': "b' = b\<lparr>last_updated := tick w\<rparr>"
    and w': "w' = power_loop w (cardinal_neighbours (coords b))"
    by (simp_all add: update_Power_eq)
  have "set (update_buffer w') \<subseteq> set (update_buffer w) \<union> {i. i \<noteq> coords b \<and> due w i}"
    unfolding w' power_loop_buffer using cardinal_not_self [of "coords b"] by auto
  moreover have "set (update_buffer w) \<subseteq> set (update_buffer w')"
    unfolding w' power_loop_buffer by auto
  ultimately show ?thesis
    unfolding b' using w' by (simp add: power_loop_distinct)
qed

lemma delayer_schedule_effect:
  assumes "delayer_input_coords b = Inr ic" and "delayer_output_coords b = Inr oc"
    and "b' = b\<lparr>state := st, last_updated := tick w\<rparr>"
    and "w' = (let w2 = snd (get_block (snd (get_block w ic)) oc);
                   w3 = (if due w ic then schedule_update w2 ic else w2)
               in if due w oc then schedule_update w3 oc else w3)"
  shows "blocks w' = blocks w \<and> tick w' = tick w \<and> update_log w' = update_log w
     \<and> coords b' = coords b \<and> kind b' = kind b \<and> last_updated b' = tick w
     \<and> (distinct (update_buffer w) \<longrightarrow> distinct (update_buffer w'))
     \<and> set (update_buffer w') \<subseteq> set (update_buffer w) \<union> {i. i \<noteq> coords b \<and> due w i}
     \<and> set (update_buffer w) \<subseteq> set (update_buffer w')"
proof -
  let ?w2 = "snd (get_block (snd (get_block w ic)) oc)"
  let ?w3 = "if due w ic then schedule_update ?w2 ic else ?w2"
  let ?w4 = "if due w oc then schedule_update ?w3 oc else ?w3"
  from assms(4) have w': "w' = ?w4" by (simp add: Let_def)
  have fr: "blocks ?w4 = blocks w" "tick ?w4 = tick w" "update_log ?w4 = update_log w"
    by simp_all
  have d3: "distinct (update_buffer w) \<Longrightarrow> distinct (update_buffer ?w3)"
    by (simp add: schedule_update_distinct)
  have d4: "distinct (update_buffer w) \<Longrightarrow> distinct (update_buffer ?w4)"
    using d3 by (simp add: schedule_update_distinct)
  have s3: "set (update_buffer ?w3) \<subseteq> set (update_buffer w) \<union> {i. i \<noteq> coords b \<and> due w i}"
    using delayer_coords_not_self(1) [OF assms(1)] by auto
  have s4: "set (update_buffer ?w4) \<subseteq> set (update_buffer w) \<union> {i. i \<noteq> coords b \<and> due w i}"
    using s3 delayer_coords_not_self(2) [OF assms(2)] by auto
  have m4: "set (update_buffer w) \<subseteq> set (update_buffer ?w4)"
    by auto
  show ?thesis
    unfolding w' assms(3) using fr d4 s4 m4 by simp
qed

lemma update_Delayer_effect:
  assumes "update_Delayer w b = Inr (b', w')"
  shows "blocks w' = blocks w \<and> tick w' = tick w \<and> update_log w' = update_log w
     \<and> coords b' = coords b \<and> kind b' = kind b \<and> last_updated b' = tick w
     \<and> (distinct (update_buffer w) \<longrightarrow> distinct (update_buffer w'))
     \<and> set (update_buffer w') \<subseteq> set (update_buffer w) \<union> {i. i \<noteq> coords b \<and> due w i}
     \<and> set (update_buffer w) \<subseteq> set (update_buffer w')"
proof -
  from assms obtain ic oc where c: "delayer_input_coords b = Inr ic"
    "delayer_output_coords b = Inr oc"
    by (auto simp add: update_Delayer_def split: sum.splits)
  from assms obtain st where b': "b' = b\<lparr>state := st, last_updated := tick w\<rparr>"
    and w': "w' = (let w2 = snd (get_block (snd (get_block w ic)) oc);
                   w3 = (if due w ic then schedule_update w2 ic else w2)
               in if due w oc then schedule_update w3 oc else w3)"
    unfolding update_Delayer_unfold [OF c]
    by (auto split: if_splits sum.splits)
  from c b' w' show ?thesis by (rule delayer_schedule_effect)
qed

lemma update_effect:
  assumes "update w b = Inr (b', w')"
  shows "blocks w' = blocks w \<and> tick w' = tick w \<and> update_log w' = update_log w
     \<and> coords b' = coords b \<and> kind b' = kind b
     \<and> (kind b \<noteq> AIR \<longrightarrow> last_updated b' = tick w)
     \<and> (kind b = AIR \<longrightarrow> b' = b \<and> w' = w)
     \<and> (distinct (update_buffer w) \<longrightarrow> distinct (update_buffer w'))
     \<and> set (update_buffer w') \<subseteq>
         set (update_buffer w) \<union>
         {i. i \<noteq> coords b \<and> (due w i \<or> wire_due w (last_updated b) i)}
     \<and> set (update_buffer w) \<subseteq> set (update_buffer w')"
proof (cases "kind b")
  case AIR
  with assms show ?thesis by (auto simp add: update_def update_Air_def)
next
  case WIRE
  with assms have "update_Wire w b = Inr (b', w')" by (simp add: update_def)
  from update_Wire_effect [OF this] WIRE show ?thesis by auto
next
  case POWER
  with assms have "update_Power w b = Inr (b', w')" by (simp add: update_def)
  from update_Power_effect [OF this] POWER show ?thesis by auto
next
  case DELAYER
  with assms have "update_Delayer w b = Inr (b', w')" by (simp add: update_def)
  from update_Delayer_effect [OF this] DELAYER show ?thesis by auto
qed

text \<open>
  The same without the guard of the early \<open>return\<close> of \<open>Delayer.update\<close>: when neither
  neighbour of a delayer carries a true \<open>facing\<close>, the left operands of the guard are
  false and the right ones are not evaluated. No update changes a \<open>facing\<close> entry, so
  this remains so through a tick.
\<close>

lemma update_Delayer_plain_effect:
  assumes "neighbours_plain w b" and "update_Delayer w b = Inr (b', w')"
  shows "blocks w' = blocks w \<and> tick w' = tick w \<and> update_log w' = update_log w
     \<and> coords b' = coords b \<and> kind b' = kind b \<and> last_updated b' = tick w
     \<and> (distinct (update_buffer w) \<longrightarrow> distinct (update_buffer w'))
     \<and> set (update_buffer w') \<subseteq> set (update_buffer w) \<union> {i. i \<noteq> coords b \<and> due w i}
     \<and> set (update_buffer w) \<subseteq> set (update_buffer w')"
proof -
  from assms(1) obtain ic oc where c: "delayer_input_coords b = Inr ic"
    "delayer_output_coords b = Inr oc"
    and p: "\<not> get_truthy (state (block_at w ic)) ''facing''"
      "\<not> get_truthy (state (block_at w oc)) ''facing''"
    by (auto simp add: neighbours_plain_def split: sum.splits)
  from assms(2) obtain st where b': "b' = b\<lparr>state := st, last_updated := tick w\<rparr>"
    and w': "w' = (let w2 = snd (get_block (snd (get_block w ic)) oc);
                   w3 = (if due w ic then schedule_update w2 ic else w2)
               in if due w oc then schedule_update w3 oc else w3)"
    unfolding update_Delayer_past_guard [OF c p]
    by (auto split: if_splits sum.splits)
  from c b' w' show ?thesis by (rule delayer_schedule_effect)
qed

lemma update_effect_plain:
  assumes "update w b = Inr (b', w')" and "kind b = DELAYER \<longrightarrow> neighbours_plain w b"
  shows "blocks w' = blocks w \<and> tick w' = tick w \<and> update_log w' = update_log w
     \<and> coords b' = coords b \<and> kind b' = kind b
     \<and> (kind b \<noteq> AIR \<longrightarrow> last_updated b' = tick w)
     \<and> (kind b = AIR \<longrightarrow> b' = b \<and> w' = w)
     \<and> (distinct (update_buffer w) \<longrightarrow> distinct (update_buffer w'))
     \<and> set (update_buffer w') \<subseteq>
         set (update_buffer w) \<union>
         {i. i \<noteq> coords b \<and> (due w i \<or> wire_due w (last_updated b) i)}
     \<and> set (update_buffer w) \<subseteq> set (update_buffer w')"
proof (cases "kind b")
  case AIR
  with assms show ?thesis by (auto simp add: update_def update_Air_def)
next
  case WIRE
  with assms have "update_Wire w b = Inr (b', w')" by (simp add: update_def)
  from update_Wire_effect [OF this] WIRE show ?thesis by auto
next
  case POWER
  with assms have "update_Power w b = Inr (b', w')" by (simp add: update_def)
  from update_Power_effect [OF this] POWER show ?thesis by auto
next
  case DELAYER
  with assms have "update_Delayer w b = Inr (b', w')" and "neighbours_plain w b"
    by (simp_all add: update_def)
  from update_Delayer_plain_effect [OF this(2,1)] DELAYER show ?thesis by auto
qed

lemma delayer_count_facing: "delayer_count st = Inr st' \<Longrightarrow> st' ''facing'' = st ''facing''"
  by (auto simp add: delayer_count_def Let_def split: sum.splits if_splits option.splits)

lemma update_Delayer_facing:
  assumes "update_Delayer w b = Inr (b', w')"
  shows "state b' ''facing'' = state b ''facing''"
proof -
  from assms obtain ic oc where c: "delayer_input_coords b = Inr ic"
    "delayer_output_coords b = Inr oc"
    by (auto simp add: update_Delayer_def split: sum.splits)
  from assms have "b' = b \<or> (\<exists>st. (delayer_count (state b) = Inr st \<or> st = delayer_clear (state b))
      \<and> state b' = st)"
    unfolding update_Delayer_body [OF c]
    by (auto simp add: Let_def split: sum.splits bool.splits if_splits)
  then show ?thesis
    by (auto simp add: delayer_clear_def dest: delayer_count_facing)
qed

lemma wire_loop_facing:
  "wire_loop w self cs = Inr (self', w') \<Longrightarrow> state self' ''facing'' = state self ''facing''"
proof (induction cs arbitrary: w self)
  case Nil
  then show ?case by simp
next
  case (Cons i cs)
  let ?w2 = "if last_updated (block_at w i) \<le> last_updated self \<and> kind (block_at w i) \<noteq> AIR
             then schedule_update (snd (get_block w i)) i else snd (get_block w i)"
  from Cons.prems have "wire_loop ?w2 self cs = Inr (self', w')
      \<or> (\<exists>m. wire_loop ?w2 (self\<lparr>state := (state self)(''signal'' \<mapsto> VInt m)\<rparr>) cs = Inr (self', w'))"
    by (auto simp add: wire_loop_Cons Let_def split: sum.splits bool.splits)
  then show ?case
  proof
    assume "wire_loop ?w2 self cs = Inr (self', w')"
    then show ?thesis by (rule Cons.IH)
  next
    assume "\<exists>m. wire_loop ?w2 (self\<lparr>state := (state self)(''signal'' \<mapsto> VInt m)\<rparr>) cs = Inr (self', w')"
    then obtain m where "wire_loop ?w2 (self\<lparr>state := (state self)(''signal'' \<mapsto> VInt m)\<rparr>) cs = Inr (self', w')" ..
    from Cons.IH [OF this] show ?thesis by simp
  qed
qed

lemma update_Wire_facing:
  assumes "update_Wire w b = Inr (b', w')"
  shows "state b' ''facing'' = state b ''facing''"
proof -
  from assms obtain cs s2 where
    l: "wire_loop w (b\<lparr>state := (state b)(''signal'' \<mapsto> VInt 0)\<rparr>) cs = Inr (s2, w')" and
    s: "b' = s2\<lparr>last_updated := tick w'\<rparr>"
    by (auto simp add: update_Wire_def Let_def split: sum.splits option.splits)
  from wire_loop_facing [OF l] s show ?thesis by simp
qed

lemma update_facing:
  assumes "update w b = Inr (b', w')"
  shows "state b' ''facing'' = state b ''facing''"
proof (cases "kind b")
  case AIR
  with assms show ?thesis by (auto simp add: update_def update_Air_def)
next
  case WIRE
  with assms have "update_Wire w b = Inr (b', w')" by (simp add: update_def)
  then show ?thesis by (rule update_Wire_facing)
next
  case POWER
  with assms show ?thesis by (auto simp add: update_def update_Power_eq)
next
  case DELAYER
  with assms have "update_Delayer w b = Inr (b', w')" by (simp add: update_def)
  then show ?thesis by (rule update_Delayer_facing)
qed

lemma facing_at:
  "get_truthy (state (block_at w i)) ''facing'' =
     (\<exists>b. map_of (blocks w) i = Some b \<and> get_truthy (state b) ''facing'')"
  by (simp add: block_at_def get_block_fst Air_init_def get_truthy_def split: option.split)

lemma neighbours_plain_cong:
  assumes "state a ''facing'' = state b ''facing''" and "coords a = coords b"
    and "\<And>i. get_truthy (state (block_at w' i)) ''facing''
           = get_truthy (state (block_at w i)) ''facing''"
  shows "neighbours_plain w' a = neighbours_plain w b"
  using delayer_coords_cong [OF assms(1,2)]
  by (simp add: neighbours_plain_def assms(3) cong: sum.case_cong)

lemma plain_delayers_step:
  assumes pl: "plain_delayers w"
    and b: "map_of (blocks w) k = Some b"
    and f: "state b' ''facing'' = state b ''facing''"
    and c: "coords b' = coords b" and kd: "kind b' = kind b"
    and m: "map_of (blocks w3) = (map_of (blocks w))(k \<mapsto> b')"
  shows "plain_delayers w3"
proof -
  have tr: "get_truthy (state b') ''facing'' = get_truthy (state b) ''facing''"
    by (simp add: get_truthy_def f)
  have at: "get_truthy (state (block_at w3 i)) ''facing''
      = get_truthy (state (block_at w i)) ''facing''" for i
    unfolding facing_at m using b tr by auto
  show ?thesis
    unfolding plain_delayers_def
  proof (intro allI impI)
    fix j d assume j: "map_of (blocks w3) j = Some d" and dk: "kind d = DELAYER"
    show "neighbours_plain w3 d"
    proof (cases "j = k")
      case True
      with j m have d: "d = b'" by simp
      from dk kd d have "kind b = DELAYER" by simp
      with pl b have "neighbours_plain w b" unfolding plain_delayers_def by blast
      moreover have "neighbours_plain w3 b' = neighbours_plain w b"
        using f c at by (rule neighbours_plain_cong)
      ultimately show ?thesis using d by simp
    next
      case False
      with j m have "map_of (blocks w) j = Some d" by simp
      with pl dk have "neighbours_plain w d" unfolding plain_delayers_def by blast
      moreover have "neighbours_plain w3 d = neighbours_plain w d"
        using refl refl at by (rule neighbours_plain_cong)
      ultimately show ?thesis by simp
    qed
  qed
qed

lemma neighbours_plain_blocks:
  "blocks w' = blocks w \<Longrightarrow> neighbours_plain w' b = neighbours_plain w b"
  by (rule neighbours_plain_cong) (simp_all add: facing_at)

subsection \<open>The inner loop\<close>

lemma pop_key_mem: "update_buffer w \<noteq> [] \<Longrightarrow> pop_key pick w \<in> set (update_buffer w)"
  by (simp add: pop_key_def)

lemma cascade_Suc:
  "update_buffer w \<noteq> [] \<Longrightarrow>
   cascade (Suc n) pick w =
     (case map_of (blocks w) (pop_key pick w) of
        None \<Rightarrow> Some (Inl DanglingReference)
      | Some b \<Rightarrow>
          (case update (w\<lparr>update_buffer := removeAll (pop_key pick w) (update_buffer w),
                          update_log := pop_key pick w # update_log w\<rparr>) b of
             Inl e \<Rightarrow> Some (Inl e)
           | Inr (b', w2) \<Rightarrow>
               cascade n pick (w2\<lparr>blocks := AList.update (pop_key pick w) b' (blocks w2)\<rparr>)))"
  by (simp add: Let_def cong: option.case_cong)

lemma cascade_Nil: "update_buffer w = [] \<Longrightarrow> cascade (Suc n) pick w = Some (Inr w)"
  by simp

declare cascade.simps(2) [simp del]

lemma wire_due_iff:
  "wire_due w t i = (\<exists>b. map_of (blocks w) i = Some b \<and> kind b \<noteq> AIR \<and> last_updated b \<le> t)"
  by (simp add: wire_due_def split: option.split)

lemma due_iff:
  "due w i = (\<exists>b. map_of (blocks w) i = Some b \<and> kind b \<noteq> AIR \<and> last_updated b \<noteq> tick w)"
  by (simp add: due_def split: option.split)

lemma finite_pending: "finite (pending_keys w)"
proof (rule finite_subset)
  show "pending_keys w \<subseteq> dom (map_of (blocks w))"
    by (auto simp add: pending_keys_def)
  show "finite (dom (map_of (blocks w)))" by (rule finite_dom_map_of)
qed

lemma card_pending_le: "card (pending_keys w) \<le> length (blocks w)"
proof -
  have "pending_keys w \<subseteq> fst ` set (blocks w)"
    by (auto simp add: pending_keys_def dest: map_of_SomeD intro: rev_image_eqI)
  then have "card (pending_keys w) \<le> card (fst ` set (blocks w))"
    by (intro card_mono) simp_all
  also have "\<dots> \<le> card (set (blocks w))" by (rule card_image_le) simp
  also have "\<dots> \<le> length (blocks w)" by (rule card_length)
  finally show ?thesis .
qed

lemma cascade_step:
  assumes own: "own_keys w" and past: "past_only w" and rdy: "ready w"
    and k: "k \<in> set (update_buffer w)"
    and b: "map_of (blocks w) k = Some b"
    and eff: "blocks w2 = blocks w \<and> tick w2 = tick w \<and> update_log w2 = k # update_log w
       \<and> coords b' = coords b \<and> kind b' = kind b
       \<and> (kind b \<noteq> AIR \<longrightarrow> last_updated b' = tick w)
       \<and> (distinct (removeAll k (update_buffer w)) \<longrightarrow> distinct (update_buffer w2))
       \<and> set (update_buffer w2) \<subseteq>
           set (removeAll k (update_buffer w)) \<union>
           {i. i \<noteq> coords b \<and> (due w i \<or> wire_due w (last_updated b) i)}"
  shows "own_keys (w2\<lparr>blocks := AList.update k b' (blocks w2)\<rparr>)"
    and "past_only (w2\<lparr>blocks := AList.update k b' (blocks w2)\<rparr>)"
    and "ready (w2\<lparr>blocks := AList.update k b' (blocks w2)\<rparr>)"
    and "tick w2 = tick w"
    and "map fst (AList.update k b' (blocks w2)) = map fst (blocks w)"
    and "pending_keys (w2\<lparr>blocks := AList.update k b' (blocks w2)\<rparr>) = pending_keys w - {k}"
    and "k \<in> pending_keys w"
    and "updated_keys (w2\<lparr>blocks := AList.update k b' (blocks w2)\<rparr>) = insert k (updated_keys w)"
    and "update_log w2 = k # update_log w"
    and "k \<notin> updated_keys w"
proof -
  let ?w3 = "w2\<lparr>blocks := AList.update k b' (blocks w2)\<rparr>"
  from rdy k have "wire_due w (tick w - 1) k" by (simp add: ready_def)
  with b have kb: "kind b \<noteq> AIR" and lb: "last_updated b \<le> tick w - 1"
    by (simp_all add: wire_due_iff)
  from own b have cb: "coords b = k" unfolding own_keys_def by blast
  from eff kb cb
  have e: "blocks w2 = blocks w" "tick w2 = tick w" "update_log w2 = k # update_log w"
    "coords b' = k" "kind b' = kind b" "last_updated b' = tick w"
    "distinct (removeAll k (update_buffer w)) \<longrightarrow> distinct (update_buffer w2)"
    "set (update_buffer w2) \<subseteq> set (removeAll k (update_buffer w)) \<union>
       {i. i \<noteq> k \<and> (due w i \<or> wire_due w (last_updated b) i)}"
    by simp_all
  have m: "map_of (blocks ?w3) = (map_of (blocks w))(k \<mapsto> b')"
    by (simp add: e(1) update_conv')
  show "tick w2 = tick w" by (rule e(2))
  show "update_log w2 = k # update_log w" by (rule e(3))
  show "own_keys ?w3"
    using own e(4) unfolding own_keys_def m by auto
  show "past_only ?w3"
    using past e(2,6) unfolding past_only_def m by auto
  have "wire_due ?w3 (tick ?w3 - 1) j" if j: "j \<in> set (update_buffer ?w3)" for j
  proof -
    from j e(8) have "j \<in> set (removeAll k (update_buffer w))
        \<or> (j \<noteq> k \<and> (due w j \<or> wire_due w (last_updated b) j))"
      by auto
    then have jk: "j \<noteq> k" and "wire_due w (tick w - 1) j"
    proof -
      assume a: "j \<in> set (removeAll k (update_buffer w))
        \<or> (j \<noteq> k \<and> (due w j \<or> wire_due w (last_updated b) j))"
      then show "j \<noteq> k" by auto
      from a show "wire_due w (tick w - 1) j"
      proof (elim disjE conjE)
        assume "j \<in> set (removeAll k (update_buffer w))"
        with rdy show ?thesis by (simp add: ready_def)
      next
        assume "due w j"
        then obtain bj where bj: "map_of (blocks w) j = Some bj" "kind bj \<noteq> AIR"
          "last_updated bj \<noteq> tick w"
          unfolding due_iff by blast
        from past bj(1) have "last_updated bj \<le> tick w" unfolding past_only_def by blast
        with bj show ?thesis unfolding wire_due_iff by simp
      next
        assume "wire_due w (last_updated b) j"
        then obtain bj where bj: "map_of (blocks w) j = Some bj" "kind bj \<noteq> AIR"
          "last_updated bj \<le> last_updated b"
          unfolding wire_due_iff by blast
        with lb show ?thesis unfolding wire_due_iff by simp
      qed
    qed
    then show ?thesis
      unfolding wire_due_iff m by (simp add: e(2))
  qed
  moreover from rdy e(7) have "distinct (update_buffer ?w3)"
    by (simp add: ready_def distinct_removeAll)
  ultimately show "ready ?w3" by (simp add: ready_def)
  from b have "k \<in> fst ` set (blocks w)"
    by (auto dest: map_of_SomeD intro: rev_image_eqI)
  then show "map fst (AList.update k b' (blocks w2)) = map fst (blocks w)"
    by (simp add: e(1) update_keys)
  from b lb show "k \<in> pending_keys w" by (auto simp add: pending_keys_def)
  from b lb show "k \<notin> updated_keys w" by (auto simp add: updated_keys_def)
  show "pending_keys ?w3 = pending_keys w - {k}"
    unfolding pending_keys_def m using e(2,6) by auto
  show "updated_keys ?w3 = insert k (updated_keys w)"
    unfolding updated_keys_def m using e(2,6) by auto
qed

lemma update_in_cascade:
  assumes "blocks w2 = blocks w1 \<and> tick w2 = tick w1 \<and> update_log w2 = update_log w1
     \<and> coords b' = coords b \<and> kind b' = kind b
     \<and> (kind b \<noteq> AIR \<longrightarrow> last_updated b' = tick w1)
     \<and> (kind b = AIR \<longrightarrow> b' = b \<and> w2 = w1)
     \<and> (distinct (update_buffer w1) \<longrightarrow> distinct (update_buffer w2))
     \<and> set (update_buffer w2) \<subseteq>
         set (update_buffer w1) \<union>
         {i. i \<noteq> coords b \<and> (due w1 i \<or> wire_due w1 (last_updated b) i)}
     \<and> set (update_buffer w1) \<subseteq> set (update_buffer w2)"
    and "w1 = w\<lparr>update_buffer := removeAll k (update_buffer w), update_log := k # update_log w\<rparr>"
  shows "blocks w2 = blocks w \<and> tick w2 = tick w \<and> update_log w2 = k # update_log w
       \<and> coords b' = coords b \<and> kind b' = kind b
       \<and> (kind b \<noteq> AIR \<longrightarrow> last_updated b' = tick w)
       \<and> (distinct (removeAll k (update_buffer w)) \<longrightarrow> distinct (update_buffer w2))
       \<and> set (update_buffer w2) \<subseteq>
           set (removeAll k (update_buffer w)) \<union>
           {i. i \<noteq> coords b \<and> (due w i \<or> wire_due w (last_updated b) i)}"
proof -
  have d1: "due w1 i = due w i" for i unfolding assms(2) by (rule due_cong) simp_all
  have d2: "wire_due w1 t i = wire_due w t i" for t i
    unfolding assms(2) by (rule wire_due_cong) simp
  from assms(1) show ?thesis unfolding d1 d2 by (simp add: assms(2))
qed

lemma cascade_terminates:
  assumes "own_keys w" and "past_only w" and "ready w" and "card (pending_keys w) < n"
  shows "cascade n pick w \<noteq> None"
  using assms
proof (induction n arbitrary: w)
  case 0
  then show ?case by simp
next
  case (Suc n)
  show ?case
  proof (cases "update_buffer w = []")
    case True
    then show ?thesis by (simp add: cascade_Nil)
  next
    case False
    let ?k = "pop_key pick w"
    let ?w1 = "w\<lparr>update_buffer := removeAll ?k (update_buffer w),
                  update_log := ?k # update_log w\<rparr>"
    from False have k: "?k \<in> set (update_buffer w)" by (rule pop_key_mem)
    with Suc.prems(3) have "wire_due w (tick w - 1) ?k" by (simp add: ready_def)
    then obtain b where b: "map_of (blocks w) ?k = Some b"
      unfolding wire_due_iff by blast
    show ?thesis
    proof (cases "update ?w1 b")
      case (Inl e)
      with b False show ?thesis by (simp add: cascade_Suc)
    next
      case (Inr r)
      obtain b' w2 where r: "r = (b', w2)" by (cases r)
      let ?w3 = "w2\<lparr>blocks := AList.update ?k b' (blocks w2)\<rparr>"
      from Inr r have u: "update ?w1 b = Inr (b', w2)" by simp
      note eff = update_in_cascade [OF update_effect [OF u] refl]
      note st = cascade_step [OF Suc.prems(1-3) k b eff]
      have "card (pending_keys ?w3) < card (pending_keys w)"
        unfolding st(6) using st(7) finite_pending [of w]
        by (rule card_Diff1_less [rotated])
      with Suc.prems(4) have "card (pending_keys ?w3) < n" by simp
      from Suc.IH [OF st(1-3) this] b False u show ?thesis
        by (simp add: cascade_Suc)
    qed
  qed
qed

lemma cascade_keeps:
  assumes "own_keys w" and "past_only w" and "ready w"
    and "cascade n pick w = Some (Inr w')"
  shows "own_keys w' \<and> past_only w' \<and> tick w' = tick w
     \<and> map fst (blocks w') = map fst (blocks w)"
  using assms
proof (induction n arbitrary: w)
  case 0
  then show ?case by simp
next
  case (Suc n)
  show ?case
  proof (cases "update_buffer w = []")
    case True
    with Suc.prems show ?thesis by (simp add: cascade_Nil)
  next
    case False
    let ?k = "pop_key pick w"
    let ?w1 = "w\<lparr>update_buffer := removeAll ?k (update_buffer w),
                  update_log := ?k # update_log w\<rparr>"
    from False have k: "?k \<in> set (update_buffer w)" by (rule pop_key_mem)
    with Suc.prems(3) have "wire_due w (tick w - 1) ?k" by (simp add: ready_def)
    then obtain b where b: "map_of (blocks w) ?k = Some b"
      unfolding wire_due_iff by blast
    from Suc.prems(4) b False obtain b' w2 where
      u: "update ?w1 b = Inr (b', w2)" and
      c: "cascade n pick (w2\<lparr>blocks := AList.update ?k b' (blocks w2)\<rparr>) = Some (Inr w')"
      by (auto simp add: cascade_Suc split: sum.splits)
    let ?w3 = "w2\<lparr>blocks := AList.update ?k b' (blocks w2)\<rparr>"
    note eff = update_in_cascade [OF update_effect [OF u] refl]
    note st = cascade_step [OF Suc.prems(1-3) k b eff]
    from Suc.IH [OF st(1-3) c]
    have ih: "own_keys w'" "past_only w'" "tick w' = tick ?w3"
      "map fst (blocks w') = map fst (blocks ?w3)"
      by simp_all
    with st(4,5) show ?thesis by simp
  qed
qed

lemma cascade_marks:
  assumes "airless w" and "cascade n pick w = Some (Inr w')" and "plain_delayers w"
  shows "airless w' \<and> tick w' = tick w \<and> map fst (blocks w') = map fst (blocks w)
     \<and> updated_keys w \<subseteq> updated_keys w' \<and> set (update_buffer w) \<subseteq> updated_keys w'
     \<and> plain_delayers w'"
  using assms
proof (induction n arbitrary: w)
  case 0
  then show ?case by simp
next
  case (Suc n)
  show ?case
  proof (cases "update_buffer w = []")
    case True
    with Suc.prems show ?thesis by (simp add: cascade_Nil)
  next
    case False
    let ?k = "pop_key pick w"
    let ?w1 = "w\<lparr>update_buffer := removeAll ?k (update_buffer w),
                  update_log := ?k # update_log w\<rparr>"
    from Suc.prems(2) False obtain b b' w2 where
      b: "map_of (blocks w) ?k = Some b" and
      u: "update ?w1 b = Inr (b', w2)" and
      c: "cascade n pick (w2\<lparr>blocks := AList.update ?k b' (blocks w2)\<rparr>) = Some (Inr w')"
      by (auto simp add: cascade_Suc split: option.splits sum.splits)
    let ?w3 = "w2\<lparr>blocks := AList.update ?k b' (blocks w2)\<rparr>"
    from Suc.prems(1) b have kb: "kind b \<noteq> AIR" unfolding airless_def by blast
    from Suc.prems(3) b have "kind b = DELAYER \<longrightarrow> neighbours_plain w b"
      unfolding plain_delayers_def by blast
    then have pb: "kind b = DELAYER \<longrightarrow> neighbours_plain ?w1 b"
      using neighbours_plain_blocks [of ?w1 w b] by simp
    from update_effect_plain [OF u pb] kb
    have e: "blocks w2 = blocks w" "tick w2 = tick w" "kind b' = kind b"
      "last_updated b' = tick w"
      "set (removeAll ?k (update_buffer w)) \<subseteq> set (update_buffer w2)"
      "coords b' = coords b"
      by simp_all
    have m: "map_of (blocks ?w3) = (map_of (blocks w))(?k \<mapsto> b')"
      by (simp add: e(1) update_conv')
    have p3: "plain_delayers ?w3"
      using Suc.prems(3) b update_facing [OF u] e(6,3) m by (rule plain_delayers_step)
    have a3: "airless ?w3"
      using Suc.prems(1) kb e(3) unfolding airless_def m by auto
    from b have "?k \<in> fst ` set (blocks w)"
      by (auto dest: map_of_SomeD intro: rev_image_eqI)
    then have ks: "map fst (blocks ?w3) = map fst (blocks w)"
      by (simp add: e(1) update_keys)
    have up: "updated_keys ?w3 = insert ?k (updated_keys w)"
      unfolding updated_keys_def m using e(2,4) by auto
    from Suc.IH [OF a3 c p3]
    have ih: "airless w'" "tick w' = tick ?w3" "map fst (blocks w') = map fst (blocks ?w3)"
      "updated_keys ?w3 \<subseteq> updated_keys w'" "set (update_buffer ?w3) \<subseteq> updated_keys w'"
      "plain_delayers w'"
      by simp_all
    have "set (update_buffer w) \<subseteq> updated_keys w'"
    proof
      fix j assume j: "j \<in> set (update_buffer w)"
      show "j \<in> updated_keys w'"
      proof (cases "j = ?k")
        case True
        with up ih(4) show ?thesis by auto
      next
        case False
        with j e(5) have "j \<in> set (update_buffer ?w3)" by auto
        with ih(5) show ?thesis by auto
      qed
    qed
    with ih up ks e(2) show ?thesis by auto
  qed
qed

lemma cascade_logged:
  assumes "own_keys w" and "past_only w" and "ready w" and "plain_delayers w"
    and "logged_ok w" and "cascade n pick w = Some (Inr w')"
  shows "own_keys w' \<and> past_only w' \<and> logged_ok w'"
  using assms
proof (induction n arbitrary: w)
  case 0
  then show ?case by simp
next
  case (Suc n)
  show ?case
  proof (cases "update_buffer w = []")
    case True
    with Suc.prems show ?thesis by (simp add: cascade_Nil)
  next
    case False
    let ?k = "pop_key pick w"
    let ?w1 = "w\<lparr>update_buffer := removeAll ?k (update_buffer w),
                  update_log := ?k # update_log w\<rparr>"
    from False have k: "?k \<in> set (update_buffer w)" by (rule pop_key_mem)
    with Suc.prems(3) have "wire_due w (tick w - 1) ?k" by (simp add: ready_def)
    then obtain b where b: "map_of (blocks w) ?k = Some b"
      unfolding wire_due_iff by blast
    from Suc.prems(6) b False obtain b' w2 where
      u: "update ?w1 b = Inr (b', w2)" and
      c: "cascade n pick (w2\<lparr>blocks := AList.update ?k b' (blocks w2)\<rparr>) = Some (Inr w')"
      by (auto simp add: cascade_Suc split: sum.splits)
    let ?w3 = "w2\<lparr>blocks := AList.update ?k b' (blocks w2)\<rparr>"
    from Suc.prems(4) b have "kind b = DELAYER \<longrightarrow> neighbours_plain w b"
      unfolding plain_delayers_def by blast
    then have pb: "kind b = DELAYER \<longrightarrow> neighbours_plain ?w1 b"
      using neighbours_plain_blocks [of ?w1 w b] by simp
    note eff = update_effect_plain [OF u pb]
    note st = cascade_step [OF Suc.prems(1-3) k b update_in_cascade [OF eff refl]]
    from eff have e: "blocks w2 = blocks w" "coords b' = coords b" "kind b' = kind b"
      by simp_all
    have m: "map_of (blocks ?w3) = (map_of (blocks w))(?k \<mapsto> b')"
      by (simp add: e(1) update_conv')
    have p3: "plain_delayers ?w3"
      using Suc.prems(4) b update_facing [OF u] e(2,3) m by (rule plain_delayers_step)
    have l3: "logged_ok ?w3"
      using Suc.prems(5) st(10) unfolding logged_ok_def st(8) by (auto simp add: st(9))
    from Suc.IH [OF st(1-3) p3 l3 c] show ?thesis .
  qed
qed

subsection \<open>The outer scan\<close>

lemma list_all_map_of:
  "list_all (\<lambda>(k, b). P k b) al \<Longrightarrow> map_of al k = Some b \<Longrightarrow> P k b"
  by (auto simp add: list_all_iff dest: map_of_SomeD)

lemma dict_ok_own: "dict_ok w \<Longrightarrow> own_keys w"
  unfolding dict_ok_def own_keys_def by (blast dest: list_all_map_of)

lemma no_future_past: "no_future w \<Longrightarrow> past_only w"
  unfolding no_future_def past_only_def by (blast dest: list_all_map_of)

lemma no_stored_air_airless: "no_stored_air w \<Longrightarrow> airless w"
  unfolding no_stored_air_def airless_def by (blast dest: list_all_map_of)

lemma delayers_plain_map: "delayers_plain w \<Longrightarrow> plain_delayers w"
  unfolding delayers_plain_def plain_delayers_def by (blast dest: list_all_map_of)

lemma plain_delayers_buffer:
  "plain_delayers (w\<lparr>update_buffer := q\<rparr>) = plain_delayers w"
  unfolding plain_delayers_def
  using neighbours_plain_blocks [of "w\<lparr>update_buffer := q\<rparr>" w] by simp

lemma buffer_irrelevant [simp]:
  "own_keys (w\<lparr>update_buffer := q\<rparr>) = own_keys w"
  "past_only (w\<lparr>update_buffer := q\<rparr>) = past_only w"
  "airless (w\<lparr>update_buffer := q\<rparr>) = airless w"
  "logged_ok (w\<lparr>update_buffer := q\<rparr>) = logged_ok w"
  "updated_keys (w\<lparr>update_buffer := q\<rparr>) = updated_keys w"
  "pending_keys (w\<lparr>update_buffer := q\<rparr>) = pending_keys w"
  by (simp_all add: own_keys_def past_only_def airless_def logged_ok_def updated_keys_def
      pending_keys_def)

lemma ready_single:
  assumes "past_only w" and "map_of (blocks w) k = Some b" and "kind b \<noteq> AIR"
    and "last_updated b \<noteq> tick w"
  shows "ready (w\<lparr>update_buffer := [k]\<rparr>)"
proof -
  from assms(1,2) have "last_updated b \<le> tick w" unfolding past_only_def by blast
  with assms show ?thesis by (simp add: ready_def wire_due_iff)
qed

lemma cascade_air:
  assumes "map_of (blocks w) k = Some b" and "kind b = AIR"
  shows "cascade (Suc (Suc n)) pick (w\<lparr>update_buffer := [k]\<rparr>) =
     Some (Inr (w\<lparr>update_buffer := [], update_log := k # update_log w,
                   blocks := AList.update k b (blocks w)\<rparr>))"
proof -
  have p: "pop_key pick (w\<lparr>update_buffer := [k]\<rparr>) = k" by (simp add: pop_key_def)
  show ?thesis
    using assms by (simp add: cascade_Suc p update_def update_Air_def cascade_Nil)
qed

lemma update_same:
  assumes "map_of (blocks w) k = Some b"
  shows "map_of (AList.update k b (blocks w)) = map_of (blocks w)"
    and "map fst (AList.update k b (blocks w)) = map fst (blocks w)"
proof -
  show "map_of (AList.update k b (blocks w)) = map_of (blocks w)"
    using assms by (simp add: update_conv' map_upd_triv)
  from assms have "k \<in> fst ` set (blocks w)"
    by (auto dest: map_of_SomeD intro: rev_image_eqI)
  then show "map fst (AList.update k b (blocks w)) = map fst (blocks w)"
    by (simp add: update_keys)
qed

lemma scan_terminates:
  assumes "own_keys w" and "past_only w" and "length (blocks w) < fuel"
  shows "scan fuel pick ks w \<noteq> None"
  using assms
proof (induction ks arbitrary: w)
  case Nil
  show ?case by simp
next
  case (Cons k ks)
  show ?case
  proof (cases "map_of (blocks w) k")
    case None
    with Cons.IH [OF Cons.prems] show ?thesis by simp
  next
    case (Some b)
    show ?thesis
    proof (cases "last_updated b = tick w")
      case True
      with Some Cons.IH [OF Cons.prems] show ?thesis by simp
    next
      case False
      show ?thesis
      proof (cases "kind b = AIR")
        case True
        from Some have "blocks w \<noteq> []" by auto
        then have "1 \<le> length (blocks w)" by (cases "blocks w") simp_all
        with Cons.prems(3) have "fuel = Suc (Suc (fuel - 2))" by simp
        then obtain n where n: "fuel = Suc (Suc n)" ..
        let ?w3 = "w\<lparr>update_buffer := [], update_log := k # update_log w,
                     blocks := AList.update k b (blocks w)\<rparr>"
        have c: "cascade fuel pick (w\<lparr>update_buffer := [k]\<rparr>) = Some (Inr ?w3)"
          unfolding n by (rule cascade_air [OF Some True])
        have "own_keys ?w3" "past_only ?w3"
          using Cons.prems(1,2) unfolding own_keys_def past_only_def
          by (simp_all add: update_same(1) [OF Some])
        moreover have "length (AList.update k b (blocks w)) = length (blocks w)"
          using update_same(2) [OF Some] by (metis length_map)
        then have "length (blocks ?w3) < fuel"
          using Cons.prems(3) by simp
        ultimately have "scan fuel pick ks ?w3 \<noteq> None" by (rule Cons.IH)
        with Some False c show ?thesis by simp
      next
        case na: False
        let ?w0 = "w\<lparr>update_buffer := [k]\<rparr>"
        have r: "ready ?w0" by (rule ready_single [OF Cons.prems(2) Some na False])
        have o: "own_keys ?w0" "past_only ?w0" using Cons.prems(1,2) by simp_all
        have "card (pending_keys ?w0) < fuel"
          using card_pending_le [of w] Cons.prems(3) by simp
        from cascade_terminates [OF o r this]
        obtain res where res: "cascade fuel pick ?w0 = Some res" by blast
        show ?thesis
        proof (cases res)
          case (Inl e)
          with Some False res show ?thesis by simp
        next
          case (Inr w1)
          with res have c: "cascade fuel pick ?w0 = Some (Inr w1)" by simp
          from cascade_keeps [OF o r c]
          have k1: "own_keys w1" "past_only w1" "map fst (blocks w1) = map fst (blocks w)"
            by simp_all
          from k1(3) have "length (blocks w1) = length (blocks w)"
            by (metis length_map)
          with Cons.prems(3) have "length (blocks w1) < fuel" by simp
          from Cons.IH [OF k1(1,2) this] Some False c show ?thesis by simp
        qed
      qed
    qed
  qed
qed

lemma scan_marks:
  assumes "airless w" and "scan fuel pick ks w = Some (Inr w')" and "plain_delayers w"
  shows "airless w' \<and> tick w' = tick w \<and> map fst (blocks w') = map fst (blocks w)
     \<and> updated_keys w \<subseteq> updated_keys w'
     \<and> set ks \<inter> fst ` set (blocks w) \<subseteq> updated_keys w'"
  using assms
proof (induction ks arbitrary: w)
  case Nil
  then show ?case by simp
next
  case (Cons k ks)
  show ?case
  proof (cases "map_of (blocks w) k")
    case None
    then have nk: "k \<notin> fst ` set (blocks w)" by (simp add: map_of_eq_None_iff)
    from None Cons.prems(2) have "scan fuel pick ks w = Some (Inr w')" by simp
    from Cons.IH [OF Cons.prems(1) this Cons.prems(3)] nk show ?thesis by auto
  next
    case (Some b)
    show ?thesis
    proof (cases "last_updated b = tick w")
      case True
      with Some have ku: "k \<in> updated_keys w" by (simp add: updated_keys_def)
      from True Some Cons.prems(2) have "scan fuel pick ks w = Some (Inr w')" by simp
      from Cons.IH [OF Cons.prems(1) this Cons.prems(3)] ku show ?thesis by auto
    next
      case False
      let ?w0 = "w\<lparr>update_buffer := [k]\<rparr>"
      from False Some Cons.prems(2) obtain w1 where
        c: "cascade fuel pick ?w0 = Some (Inr w1)" and
        s: "scan fuel pick ks w1 = Some (Inr w')"
        by (auto split: option.splits sum.splits)
      from Cons.prems(1) have a0: "airless ?w0" by simp
      from Cons.prems(3) have p0: "plain_delayers ?w0" by (simp add: plain_delayers_buffer)
      from cascade_marks [OF a0 c p0]
      have m: "airless w1" "tick w1 = tick w" "map fst (blocks w1) = map fst (blocks w)"
        "updated_keys w \<subseteq> updated_keys w1" "k \<in> updated_keys w1" "plain_delayers w1"
        by simp_all
      from m(3) have ks: "fst ` set (blocks w1) = fst ` set (blocks w)"
        by (metis set_map)
      from Cons.IH [OF m(1) s m(6)]
      have ih: "airless w'" "tick w' = tick w1" "map fst (blocks w') = map fst (blocks w1)"
        "updated_keys w1 \<subseteq> updated_keys w'"
        "set ks \<inter> fst ` set (blocks w1) \<subseteq> updated_keys w'"
        by simp_all
      from ih m ks show ?thesis by auto
    qed
  qed
qed

lemma scan_logged:
  assumes "airless w" and "own_keys w" and "past_only w" and "logged_ok w"
    and "scan fuel pick ks w = Some (Inr w')" and "plain_delayers w"
  shows "logged_ok w'"
  using assms
proof (induction ks arbitrary: w)
  case Nil
  then show ?case by simp
next
  case (Cons k ks)
  show ?case
  proof (cases "map_of (blocks w) k")
    case None
    with Cons.prems(5) have "scan fuel pick ks w = Some (Inr w')" by simp
    from Cons.IH [OF Cons.prems(1-4) this Cons.prems(6)] show ?thesis .
  next
    case (Some b)
    show ?thesis
    proof (cases "last_updated b = tick w")
      case True
      with Some Cons.prems(5) have "scan fuel pick ks w = Some (Inr w')" by simp
      from Cons.IH [OF Cons.prems(1-4) this Cons.prems(6)] show ?thesis .
    next
      case False
      let ?w0 = "w\<lparr>update_buffer := [k]\<rparr>"
      from False Some Cons.prems(5) obtain w1 where
        c: "cascade fuel pick ?w0 = Some (Inr w1)" and
        s: "scan fuel pick ks w1 = Some (Inr w')"
        by (auto split: option.splits sum.splits)
      from Cons.prems(1) Some have na: "kind b \<noteq> AIR" unfolding airless_def by blast
      have r: "ready ?w0" by (rule ready_single [OF Cons.prems(3) Some na False])
      have o: "own_keys ?w0" "past_only ?w0" "airless ?w0" "logged_ok ?w0"
        using Cons.prems(1-4) by simp_all
      from Cons.prems(6) have p0: "plain_delayers ?w0" by (simp add: plain_delayers_buffer)
      from cascade_logged [OF o(1,2) r p0 o(4) c]
      have k1: "own_keys w1" "past_only w1" "logged_ok w1" by simp_all
      from cascade_marks [OF o(3) c p0] have a1: "airless w1" "plain_delayers w1" by simp_all
      from Cons.IH [OF a1(1) k1 s a1(2)] show ?thesis .
    qed
  qed
qed

subsection \<open>A whole tick\<close>

text \<open>
  C1 (as amended). In a world built by \<open>add_blocks\<close> that stores no Air block and no
  delayer with a \<open>facing\<close> on its input or output neighbour, when \<open>tick_ahead\<close> returns,
  every stored block has \<open>last_updated\<close> equal to the tick that ran and the tick counter
  is one greater; and if no stored block was dated after that tick, no key was updated
  twice during the tick (the log of invoked updates, empty at the start, has no
  duplicates). This holds for every order in which the pending set is popped.
\<close>

theorem tick_ahead_updates_every_block:
  assumes "dict_ok w" and "no_stored_air w" and "delayers_plain w"
    and "tick_ahead fuel pick w = Some (Inr w')"
  shows "all_updated w' (tick w) \<and> tick w' = tick w + 1
     \<and> (no_future w \<and> update_log w = [] \<longrightarrow> distinct (update_log w'))"
proof -
  from assms(4) obtain w1 where
    s: "scan fuel pick (map fst (blocks w)) w = Some (Inr w1)" and
    w': "w' = w1\<lparr>tick := tick w1 + 1\<rparr>"
    by (auto simp add: tick_ahead_def split: option.splits sum.splits)
  from assms(2) have a: "airless w" by (rule no_stored_air_airless)
  from assms(3) have p: "plain_delayers w" by (rule delayers_plain_map)
  from scan_marks [OF a s p]
  have m: "tick w1 = tick w" "map fst (blocks w1) = map fst (blocks w)"
    "set (map fst (blocks w)) \<inter> fst ` set (blocks w) \<subseteq> updated_keys w1"
    by simp_all
  from assms(1) m(2) have d1: "distinct (map fst (blocks w1))" by (simp add: dict_ok_def)
  have "last_updated b = tick w" if kb: "(k, b) \<in> set (blocks w1)" for k b
  proof -
    from d1 kb have mo: "map_of (blocks w1) k = Some b" by (rule map_of_is_SomeI)
    from kb have "k \<in> set (map fst (blocks w1))" by (auto intro: rev_image_eqI)
    with m(2,3) have "k \<in> updated_keys w1" by auto
    with mo m(1) show ?thesis by (simp add: updated_keys_def)
  qed
  then have au: "all_updated w' (tick w)"
    unfolding all_updated_def w' by (auto simp add: list_all_iff)
  have "distinct (update_log w')" if nf: "no_future w" and lg: "update_log w = []"
  proof -
    from lg have "logged_ok w" by (simp add: logged_ok_def)
    from scan_logged [OF a dict_ok_own [OF assms(1)] no_future_past [OF nf] this s p]
    show ?thesis unfolding w' by (simp add: logged_ok_def)
  qed
  with au m(1) w' show ?thesis by simp
qed

text \<open>
  C9 (as amended). In a world built by \<open>add_blocks\<close> in which no stored block is dated
  after the current tick, \<open>tick_ahead\<close> terminates, by returning or by raising, for
  every order of popping: one loop test more than there are stored blocks is enough for
  each cascade. Stored Air blocks, whose \<open>update\<close> never sets \<open>last_updated\<close>, are
  included: the outer scan passes each key once.
\<close>

theorem tick_ahead_terminates:
  assumes "dict_ok w" and "no_future w" and "length (blocks w) < fuel"
  shows "\<exists>r. tick_ahead fuel pick w = Some r"
proof -
  from scan_terminates [OF dict_ok_own [OF assms(1)] no_future_past [OF assms(2)] assms(3)]
  obtain r where "scan fuel pick (map fst (blocks w)) w = Some r" by blast
  then show ?thesis by (cases r) (simp_all add: tick_ahead_def)
qed

subsection \<open>Blocks dated in the future\<close>

text \<open>
  Without the bound on \<open>last_updated\<close> the tick need not end: in \<open>future_world\<close> each
  wire finds the other one dated no later than itself and schedules it again.
\<close>

lemma spin_step_a:
  assumes "sa ''facing'' = Some (VStr ''north'')" and "sb ''facing'' = Some (VStr ''south'')"
    and "lb \<le> la"
  shows "cascade (Suc n) pick (spin_world sa la sb lb (0, 0, 0) u lg) =
     cascade n pick (spin_world (sa(''signal'' \<mapsto> VInt 0)) 1 sb lb (1, 0, 0) (Suc u) ((0, 0, 0) # lg))"
  using assms
  by (simp add: spin_world_def cascade_Suc pop_key_def update_def update_Wire_def
      wire_loop_Cons wire_skips_def eval_defs schedule_update_def)

lemma spin_step_b:
  assumes "sa ''facing'' = Some (VStr ''north'')" and "sb ''facing'' = Some (VStr ''south'')"
    and "la \<le> lb"
  shows "cascade (Suc n) pick (spin_world sa la sb lb (1, 0, 0) u lg) =
     cascade n pick (spin_world sa la (sb(''signal'' \<mapsto> VInt 0)) 1 (0, 0, 0) (Suc u) ((1, 0, 0) # lg))"
  using assms
  by (simp add: spin_world_def cascade_Suc pop_key_def update_def update_Wire_def
      wire_loop_Cons wire_skips_def eval_defs schedule_update_def)

lemma spin_forever:
  assumes "sa ''facing'' = Some (VStr ''north'')" and "sb ''facing'' = Some (VStr ''south'')"
    and "1 \<le> la" and "1 \<le> lb"
  shows "(lb \<le> la \<longrightarrow> cascade n pick (spin_world sa la sb lb (0, 0, 0) u lg) = None)
     \<and> (la \<le> lb \<longrightarrow> cascade n pick (spin_world sa la sb lb (1, 0, 0) u lg) = None)"
  using assms
proof (induction n arbitrary: sa la sb lb u lg)
  case 0
  show ?case by simp
next
  case (Suc n)
  have a: "cascade (Suc n) pick (spin_world sa la sb lb (0, 0, 0) u lg) = None" if "lb \<le> la"
  proof -
    have f: "(sa(''signal'' \<mapsto> VInt 0)) ''facing'' = Some (VStr ''north'')"
      using Suc.prems(1) by simp
    have "cascade n pick (spin_world (sa(''signal'' \<mapsto> VInt 0)) 1 sb lb (1, 0, 0) (Suc u)
        ((0, 0, 0) # lg)) = None"
      using Suc.IH [where sa = "sa(''signal'' \<mapsto> VInt 0)" and sb = sb and la = 1 and lb = lb,
          OF f Suc.prems(2) order_refl Suc.prems(4)] Suc.prems(4) by blast
    then show ?thesis by (simp add: spin_step_a [where sa = sa and sb = sb, OF Suc.prems(1,2) that])
  qed
  have b: "cascade (Suc n) pick (spin_world sa la sb lb (1, 0, 0) u lg) = None" if "la \<le> lb"
  proof -
    have f: "(sb(''signal'' \<mapsto> VInt 0)) ''facing'' = Some (VStr ''south'')"
      using Suc.prems(2) by simp
    have "cascade n pick (spin_world sa la (sb(''signal'' \<mapsto> VInt 0)) 1 (0, 0, 0) (Suc u)
        ((1, 0, 0) # lg)) = None"
      using Suc.IH [where sa = sa and sb = "sb(''signal'' \<mapsto> VInt 0)" and la = la and lb = 1,
          OF Suc.prems(1) f Suc.prems(3) order_refl] Suc.prems(3) by blast
    then show ?thesis by (simp add: spin_step_b [where sa = sa and sb = sb, OF Suc.prems(1,2) that])
  qed
  from a b show ?case by blast
qed

lemma future_wires_never_return: "tick_ahead n pick future_world = None"
proof -
  let ?sa = "[''facing'' \<mapsto> VStr ''north'', ''signal'' \<mapsto> VInt 0]"
  let ?sb = "[''facing'' \<mapsto> VStr ''south'', ''signal'' \<mapsto> VInt 0]"
  have w: "future_world\<lparr>update_buffer := [(0, 0, 0)]\<rparr> =
      spin_world ?sa 10 ?sb 10 (0, 0, 0) 2 []"
    by (simp add: future_world_def spin_world_def world_of_def wire_at_def)
  have p: "?sa ''facing'' = Some (VStr ''north'')" "?sb ''facing'' = Some (VStr ''south'')"
    "(1::int) \<le> 10"
    by simp_all
  from spin_forever [where sa = ?sa and sb = ?sb and la = 10 and lb = 10, OF p p(3)]
  have "cascade n pick (spin_world ?sa 10 ?sb 10 (0, 0, 0) 2 []) = None" by blast
  then have "cascade n pick (future_world\<lparr>update_buffer := [(0, 0, 0)]\<rparr>) = None"
    unfolding w .
  then show ?thesis
    by (simp add: tick_ahead_def future_world_def world_of_def wire_at_def)
qed

subsection \<open>Concrete runs\<close>

lemma tick_ahead_air_world:
  "tick_ahead (Suc (Suc 0)) pick_first air_world = Some (Inr air_world_after)"
  by (simp add: tick_ahead_def air_world_def air_world_after_def world_of_def air_at_def
      cascade_Suc cascade_Nil pop_key_def update_def update_Air_def)

text \<open>
  C1 as stated fails: a stored Air block is never given the tick's number, because
  \<open>Air.update\<close> is \<open>pass\<close>.
\<close>

theorem tick_ahead_air_counterexample:
  "dict_ok air_world
   \<and> tick_ahead (Suc (Suc 0)) pick_first air_world = Some (Inr air_world_after)
   \<and> \<not> all_updated air_world_after (tick air_world)"
  using tick_ahead_air_world
  by (simp add: dict_ok_def all_updated_def air_world_def air_world_after_def world_of_def
      air_at_def)

text \<open>
  C9 as stated fails: the update of a stored Air block returns without setting
  \<open>last_updated\<close>, and \<open>tick_ahead\<close> still returns, after invoking that update once.
\<close>

theorem air_not_reselected_counterexample:
  "update air_world (air_at (0, 0, 0) 0 0) = Inr (air_at (0, 0, 0) 0 0, air_world)
   \<and> last_updated (air_at (0, 0, 0) 0 0) \<noteq> tick air_world
   \<and> tick_ahead (Suc (Suc 0)) pick_first air_world = Some (Inr air_world_after)
   \<and> update_log air_world_after = [(0, 0, 0)]"
  using tick_ahead_air_world
  by (simp add: update_def update_Air_def air_world_def air_world_after_def world_of_def
      air_at_def)

text \<open>
  The bound on \<open>last_updated\<close> is needed for the second part: in \<open>late_world\<close> the wire
  dated 10 finds the power source, already updated in this tick, dated no later than
  itself and schedules it again; the tick returns with the source updated twice.
\<close>

lemma late_wire_updates_twice:
  "dict_ok late_world \<and> no_stored_air late_world \<and> delayers_plain late_world
   \<and> \<not> no_future late_world
   \<and> (case tick_ahead 4 pick_first late_world of
        Some (Inr w') \<Rightarrow>
          update_log w' = [(0, 0, 0), (1, 0, 0), (0, 0, 0)] \<and> all_updated w' 2
      | _ \<Rightarrow> False)"
  by code_simp

lemma circuit_world_result:
  "(case tick_ahead 4 pick_first circuit_world of
      Some (Inr w') \<Rightarrow>
        map (\<lambda>(k, b). (k, last_updated b, state b ''signal'', state b ''timer'')) (blocks w')
          = [((0, 0, 0), 2, Some (VInt 16), None), ((1, 0, 0), 2, Some (VInt 15), None),
             ((- 1, 0, 0), 2, None, Some (VInt 1))]
        \<and> update_log w' = [(- 1, 0, 0), (1, 0, 0), (0, 0, 0)]
    | _ \<Rightarrow> False)"
  by code_simp

lemma circuit_world_runs: "\<exists>w'. tick_ahead 4 pick_first circuit_world = Some (Inr w')"
  using circuit_world_result by (auto split: option.splits sum.splits)

theorem tick_ahead_updates_every_block_witness:
  "dict_ok circuit_world \<and> no_stored_air circuit_world \<and> delayers_plain circuit_world
   \<and> no_future circuit_world
   \<and> (\<exists>w'. tick_ahead 4 pick_first circuit_world = Some (Inr w')
        \<and> all_updated w' 2 \<and> tick w' = 3 \<and> distinct (update_log w'))"
proof -
  have d: "dict_ok circuit_world" by code_simp
  have a: "no_stored_air circuit_world" by code_simp
  have p: "delayers_plain circuit_world" by code_simp
  have f: "no_future circuit_world" by code_simp
  have l: "update_log circuit_world = []" "tick circuit_world = 2"
    by (simp_all add: circuit_world_def world_of_def)
  from circuit_world_runs obtain w' where
    r: "tick_ahead 4 pick_first circuit_world = Some (Inr w')" ..
  from tick_ahead_updates_every_block [OF d a p r] f l r d a p show ?thesis by auto
qed

theorem tick_ahead_terminates_witness:
  "dict_ok air_world \<and> no_future air_world
   \<and> (\<exists>r. tick_ahead (Suc (Suc 0)) pick_first air_world = Some r)"
proof -
  have d: "dict_ok air_world"
    by (simp add: dict_ok_def air_world_def world_of_def air_at_def)
  have f: "no_future air_world"
    by (simp add: no_future_def air_world_def world_of_def air_at_def)
  have l: "length (blocks air_world) < Suc (Suc 0)"
    by (simp add: air_world_def world_of_def)
  from tick_ahead_terminates [OF d f l] d f show ?thesis by blast
qed

end
